theory Spec2Isabelle
  imports Complex_Main
begin

section \<open>The zoomable sunburst of SunburstTree\<close>

text \<open>
  The component (src/unnamed/part\_002) builds its layout with three calls into the d3
  library and then reacts to clicks with the handler \<open>clicked\<close>:

  \<^verbatim>\<open>
  const hierarchy = d3.hierarchy(data)
      .sum(d => d.value ?? 0)
      .sort((a, b) => (b.value ?? 0) - (a.value ?? 0));
  const root = d3.partition()
      .size([2 * Math.PI, hierarchy.height + 1])
      (hierarchy);
  root.each((d: MyHierarchyNode) => d.current = d);
  \<close>

  The callbacks, the arguments and everything from \<open>root.each\<close> on are the component's
  own code. The bodies of \<open>d3.hierarchy\<close>, \<open>node.sum\<close>, \<open>node.sort\<close>,
  \<open>d3.partition\<close> and \<open>d3.interpolate\<close> belong to the d3 library, which is not part of
  the source tree; they are written here after the library's published implementation
  (d3-hierarchy and d3-interpolate), and each such definition says so.

  JavaScript numbers are IEEE doubles. The layout is modelled twice. In the first model
  the numbers are idealised as \<^typ>\<open>real\<close>: rounding, overflow to infinity and the
  difference between \<open>2 * Math.PI\<close> and \<open>2 * pi\<close> are left out; the one place where
  the code can produce NaN from finite inputs, the division in \<open>clicked\<close>, has an
  explicit NaN value. The statements on the order of siblings, on the zoom and on the
  example documents are made in this model. The second model (\<open>fl_build_hierarchy\<close>,
  \<open>fl_layout\<close>) computes the weights and the angles in double arithmetic, every
  operation rounded to the nearest double; the two statements that turn on exact equality
  of sums, the conservation of weight and the partition of the angles, are made there.

  Not modelled, since nothing below depends on them: the pixel geometry of the arcs
  (\<open>d3.arc\<close>, \<open>radius\<close>), the colours, the labels (\<open>labelVisible\<close>,
  \<open>labelTransform\<close>), and the clock of the transition (duration and easing).
\<close>

subsection \<open>The input document\<close>

text \<open>
  A node of the JSON document: \<open>name\<close>, an optional \<open>value\<close> and the array
  \<open>children\<close>. An absent \<open>children\<close> and an empty array are the same to
  \<open>d3.hierarchy\<close> (it tests the array's length), so both are the empty list.
\<close>

datatype tree_node = TreeNode (name: string) (declared: "real option") (kids: "tree_node list")

subsection \<open>d3.hierarchy, node.sum, node.sort\<close>

text \<open>
  A d3 hierarchy node: \<open>data\<close>, \<open>depth\<close>, \<open>height\<close>, \<open>value\<close>, \<open>children\<close>.
  The \<open>parent\<close> pointer is not stored: a node is addressed by its path from the root
  (see \<open>node_at\<close> below) and its parent is the path without its last step.
  The field \<open>value\<close> is undefined in d3 until \<open>sum\<close> assigns it; the component calls
  \<open>sum\<close> at once, and the model starts the field at 0.
\<close>

datatype hnode = HNode (h_data: tree_node) (h_depth: nat) (h_height: nat) (h_value: real)
  (h_children: "hnode list")

text \<open>
  d3.hierarchy (d3 library, not part of this repository): one node per document node,
  \<open>child.depth = node.depth + 1\<close>; \<open>computeHeight\<close> gives a leaf height 0 and every
  other node one more than the largest height among its children.
\<close>

fun hierarchy_at :: "nat \<Rightarrow> tree_node \<Rightarrow> hnode" where
  "hierarchy_at d (TreeNode nm v cs) =
     (let ks = map (hierarchy_at (Suc d)) cs in
      HNode (TreeNode nm v cs) d
        (if ks = [] then 0 else Suc (foldr max (map h_height ks) 0)) 0 ks)"

definition hierarchy :: "tree_node \<Rightarrow> hnode" where
  "hierarchy t = hierarchy_at 0 t"

text \<open>
  node.sum (d3 library, not part of this repository), a post-order traversal running
  \<^verbatim>\<open>
  var sum = +value(node.data) || 0, children = node.children, i = children && children.length;
  while (--i >= 0) sum += children[i].value;
  node.value = sum;
  \<close>
  The loop adds the children from the last to the first, which is what \<open>foldr\<close> does
  here. On a real number \<open>+x || 0\<close> is \<open>x\<close>.
\<close>

fun node_sum :: "(tree_node \<Rightarrow> real) \<Rightarrow> hnode \<Rightarrow> hnode" where
  "node_sum f (HNode d dep hg v cs) =
     (let cs' = map (node_sum f) cs in
      HNode d dep hg (foldr (\<lambda>c s. s + h_value c) cs' (f d)) cs')"

text \<open>The component's callback \<open>d => d.value ?? 0\<close>.\<close>

definition value_or_zero :: "tree_node \<Rightarrow> real" where
  "value_or_zero d = (case declared d of None \<Rightarrow> 0 | Some v \<Rightarrow> v)"

text \<open>
  Array.prototype.sort with a comparator is stable: \<open>a\<close> stays before \<open>b\<close> unless
  \<open>compare(a, b) > 0\<close>. For a consistent comparator the result is unique, and it is the
  one insertion from the right computes.
\<close>

fun insert_by :: "('a \<Rightarrow> 'a \<Rightarrow> real) \<Rightarrow> 'a \<Rightarrow> 'a list \<Rightarrow> 'a list" where
  "insert_by cmp x [] = [x]"
| "insert_by cmp x (y # ys) = (if cmp x y \<le> 0 then x # y # ys else y # insert_by cmp x ys)"

definition array_sort :: "('a \<Rightarrow> 'a \<Rightarrow> real) \<Rightarrow> 'a list \<Rightarrow> 'a list" where
  "array_sort cmp xs = foldr (insert_by cmp) xs []"

text \<open>
  node.sort (d3 library, not part of this repository), a pre-order traversal running
  \<open>if (node.children) node.children.sort(compare)\<close>.
\<close>

function node_sort :: "(hnode \<Rightarrow> hnode \<Rightarrow> real) \<Rightarrow> hnode \<Rightarrow> hnode" where
  "node_sort cmp (HNode d dep hg v cs) =
     HNode d dep hg v (map (node_sort cmp) (array_sort cmp cs))"
  by pat_completeness auto
termination
proof (relation "measure (\<lambda>(cmp, n). size n)")
  show "wf (measure (\<lambda>(cmp :: hnode \<Rightarrow> hnode \<Rightarrow> real, n). size n))"
    by simp
next
  fix cmp :: "hnode \<Rightarrow> hnode \<Rightarrow> real" and d dep hg v cs x
  assume x: "x \<in> set (array_sort cmp cs)"
  have ins: "set (insert_by cmp y ys) = insert y (set ys)" for y and ys :: "hnode list"
    by (induction ys) auto
  have "set (array_sort cmp ys) = set ys" for ys
    by (induction ys) (simp_all add: array_sort_def ins)
  with x have "x \<in> set cs"
    by simp
  then have "size x \<le> size_list size cs"
    by (simp add: size_list_estimation')
  then show "((cmp, x), (cmp, HNode d dep hg v cs)) \<in> measure (\<lambda>(cmp, n). size n)"
    by simp
qed

text \<open>The component's comparator \<open>(a, b) => (b.value ?? 0) - (a.value ?? 0)\<close>.\<close>

definition by_value_desc :: "hnode \<Rightarrow> hnode \<Rightarrow> real" where
  "by_value_desc a b = h_value b - h_value a"

text \<open>The constant \<open>hierarchy\<close> of the component (lines 35 to 37).\<close>

definition build_hierarchy :: "tree_node \<Rightarrow> hnode" where
  "build_hierarchy data = node_sort by_value_desc (node_sum value_or_zero (hierarchy data))"


text \<open>
  The resolved weight of a document node: the \<open>value\<close> that \<open>sum\<close> leaves on the
  hierarchy node made for it.
\<close>

definition resolved :: "tree_node \<Rightarrow> real" where
  "resolved t = h_value (node_sum value_or_zero (hierarchy t))"

subsection \<open>d3.partition\<close>

text \<open>
  A node after the partition layout (d3's HierarchyRectangularNode): the hierarchy fields
  and the rectangle \<open>x0\<close>, \<open>x1\<close> (angles) and \<open>y0\<close>, \<open>y1\<close> (radial band).
\<close>

record rect =
  r_data :: tree_node
  r_depth :: nat
  r_height :: nat
  r_value :: real
  x0 :: real
  x1 :: real
  y0 :: real
  y1 :: real

datatype rnode = RNode (r_rect: rect) (r_children: "rnode list")

text \<open>
  d3.partition (d3 library, not part of this repository), with its defaults \<open>padding = 0\<close> and
  \<open>round = false\<close>:
  \<^verbatim>\<open>
  function partition(root) {
    var n = root.height + 1;
    root.x0 = root.y0 = padding; root.x1 = dx; root.y1 = dy / n;
    root.eachBefore(positionNode(dy, n));
    return root;
  }
  function positionNode(dy, n) {
    return function(node) {
      if (node.children)
        treemapDice(node, node.x0, dy * (node.depth + 1) / n, node.x1, dy * (node.depth + 2) / n);
      var x0 = node.x0, y0 = node.y0, x1 = node.x1 - padding, y1 = node.y1 - padding;
      if (x1 < x0) x0 = x1 = (x0 + x1) / 2;
      if (y1 < y0) y0 = y1 = (y0 + y1) / 2;
      node.x0 = x0; node.y0 = y0; node.x1 = x1; node.y1 = y1;
    };
  }
  function treemapDice(parent, x0, y0, x1, y1) {
    var nodes = parent.children, node, i = -1, n = nodes.length,
        k = parent.value && (x1 - x0) / parent.value;
    while (++i < n) {
      node = nodes[i], node.y0 = y0, node.y1 = y1;
      node.x0 = x0, node.x1 = x0 += node.value * k;
    }
  }
  \<close>
  \<open>position_node\<close> is \<open>positionNode\<close> on a node whose rectangle its parent has
  assigned (\<open>ax0\<close>, \<open>ay0\<close>, \<open>ax1\<close>, \<open>ay1\<close>); \<open>dice\<close> is the loop of
  \<open>treemapDice\<close>, going on into each child as the pre-order traversal does.
  \<open>parent.value && \<dots>\<close> is 0 when the value is 0.
\<close>

fun position_node :: "real \<Rightarrow> nat \<Rightarrow> real \<Rightarrow> real \<Rightarrow> real \<Rightarrow> real \<Rightarrow> hnode \<Rightarrow> rnode"
  and dice :: "real \<Rightarrow> nat \<Rightarrow> real \<Rightarrow> real \<Rightarrow> real \<Rightarrow> real \<Rightarrow> hnode list \<Rightarrow> rnode list"
where
  "position_node dy n ax0 ay0 ax1 ay1 (HNode d dep hg v cs) =
     (let k = (if v = 0 then 0 else (ax1 - ax0) / v);
          ks = dice dy n k ax0 (dy * (real dep + 1) / real n) (dy * (real dep + 2) / real n) cs
      in RNode \<lparr> r_data = d, r_depth = dep, r_height = hg, r_value = v,
                 x0 = (if ax1 < ax0 then (ax0 + ax1) / 2 else ax0),
                 x1 = (if ax1 < ax0 then (ax0 + ax1) / 2 else ax1),
                 y0 = (if ay1 < ay0 then (ay0 + ay1) / 2 else ay0),
                 y1 = (if ay1 < ay0 then (ay0 + ay1) / 2 else ay1) \<rparr> ks)"
| "dice dy n k x cy0 cy1 [] = []"
| "dice dy n k x cy0 cy1 (c # cs) =
     position_node dy n x cy0 (x + h_value c * k) cy1 c
       # dice dy n k (x + h_value c * k) cy0 cy1 cs"

definition d3_partition :: "real \<Rightarrow> real \<Rightarrow> hnode \<Rightarrow> rnode" where
  "d3_partition dx dy h =
     (let n = h_height h + 1 in position_node dy n 0 0 dx (dy / real n) h)"

text \<open>
  The constant \<open>root\<close> of the component (lines 39 to 41):
  \<open>d3.partition().size([2 * Math.PI, hierarchy.height + 1])(hierarchy)\<close>.
\<close>

definition layout :: "tree_node \<Rightarrow> rnode" where
  "layout data =
     (let h = build_hierarchy data in d3_partition (2 * pi) (real (h_height h + 1)) h)"

fun r_descendants :: "rnode \<Rightarrow> rnode list" where
  "r_descendants (RNode r cs) = RNode r cs # concat (map r_descendants cs)"

subsection \<open>The animated geometry\<close>

text \<open>
  The four numbers \<open>x0\<close>, \<open>x1\<close>, \<open>y0\<close>, \<open>y1\<close> of a \<open>current\<close> or \<open>target\<close>
  object. An angle is \<open>None\<close> when the JavaScript number is NaN.
\<close>

record geom =
  gx0 :: "real option"
  gx1 :: "real option"
  gy0 :: real
  gy1 :: real

text \<open>
  The component's \<open>MyHierarchyNode\<close>: a partition node with the fields \<open>current\<close>
  and \<open>target\<close>. \<open>tween\<close> is the interpolator that the running transition holds for
  the node, as the pair of its end points.
\<close>

datatype mnode = MNode (m_rect: rect) (current: geom) (target: "geom option")
  (tween: "(geom \<times> geom) option") (children: "mnode list")

definition rect_geom :: "rect \<Rightarrow> geom" where
  "rect_geom r = \<lparr> gx0 = Some (x0 r), gx1 = Some (x1 r), gy0 = y0 r, gy1 = y1 r \<rparr>"

text \<open>\<open>root.each(d => d.current = d)\<close> (line 43).\<close>

fun init_current :: "rnode \<Rightarrow> mnode" where
  "init_current (RNode r cs) = MNode r (rect_geom r) None None (map init_current cs)"

fun m_descendants :: "mnode \<Rightarrow> mnode list" where
  "m_descendants (MNode r c t tw cs) = MNode r c t tw cs # concat (map m_descendants cs)"

text \<open>A node is named by the child indices on the way from the root to it.\<close>

fun node_at :: "mnode \<Rightarrow> nat list \<Rightarrow> mnode option" where
  "node_at n [] = Some n"
| "node_at n (i # path) =
     (if i < length (children n) then node_at (children n ! i) path else None)"

text \<open>
  \<open>arcVisible\<close> (lines 128 to 130): \<open>d.y1 <= 3 && d.y0 >= 1 && d.x1 > d.x0\<close>.
  A comparison with NaN is false.
\<close>

definition arcVisible :: "geom \<Rightarrow> bool" where
  "arcVisible d \<longleftrightarrow>
     gy1 d \<le> 3 \<and> gy0 d \<ge> 1 \<and>
     (case (gx1 d, gx0 d) of (Some b, Some a) \<Rightarrow> b > a | _ \<Rightarrow> False)"

subsection \<open>The click handler\<close>

text \<open>
  \<open>Math.max(0, Math.min(1, a / b))\<close>. With \<open>b = 0\<close> the quotient is an infinity of the
  sign of \<open>a\<close>, which the two bounds cut to 1 or 0, or it is NaN when \<open>a = 0\<close> too, and
  NaN goes through \<open>Math.min\<close> and \<open>Math.max\<close>.
\<close>

definition clamp_ratio :: "real \<Rightarrow> real \<Rightarrow> real option" where
  "clamp_ratio a b =
     (if b = 0 then (if a = 0 then None else if a > 0 then Some 1 else Some 0)
      else Some (max 0 (min 1 (a / b))))"

text \<open>
  The object assigned to \<open>d.target\<close> (lines 100 to 105), for the clicked node \<open>p\<close>:
  \<^verbatim>\<open>
  x0: Math.max(0, Math.min(1, (d.x0 - p.x0) / (p.x1 - p.x0))) * 2 * Math.PI,
  x1: Math.max(0, Math.min(1, (d.x1 - p.x0) / (p.x1 - p.x0))) * 2 * Math.PI,
  y0: Math.max(0, d.y0 - p.depth),
  y1: Math.max(0, d.y1 - p.depth)
  \<close>
\<close>

definition target_of :: "rect \<Rightarrow> rect \<Rightarrow> geom" where
  "target_of p d =
     \<lparr> gx0 = map_option (\<lambda>c. c * 2 * pi) (clamp_ratio (x0 d - x0 p) (x1 p - x0 p)),
       gx1 = map_option (\<lambda>c. c * 2 * pi) (clamp_ratio (x1 d - x0 p) (x1 p - x0 p)),
       gy0 = max 0 (y0 d - real (r_depth p)),
       gy1 = max 0 (y1 d - real (r_depth p)) \<rparr>"

text \<open>\<open>root.each(d => d.target = \<dots>)\<close>: every node of the tree, the root too.\<close>

fun each_target :: "rect \<Rightarrow> mnode \<Rightarrow> mnode" where
  "each_target p (MNode r c t tw cs) =
     MNode r c (Some (target_of p r)) tw (map (each_target p) cs)"

text \<open>
  d3.interpolate on two such objects (d3 library, not part of this repository): each number goes through
  \<open>interpolateNumber\<close>, \<open>a * (1 - t) + b * t\<close>.
\<close>

definition interpolate_num :: "real option \<Rightarrow> real option \<Rightarrow> real \<Rightarrow> real option" where
  "interpolate_num a b t =
     (case (a, b) of (Some x, Some y) \<Rightarrow> Some (x * (1 - t) + y * t) | _ \<Rightarrow> None)"

definition interpolate :: "geom \<Rightarrow> geom \<Rightarrow> real \<Rightarrow> geom" where
  "interpolate a b t =
     \<lparr> gx0 = interpolate_num (gx0 a) (gx0 b) t, gx1 = interpolate_num (gx1 a) (gx1 b) t,
       gy0 = gy0 a * (1 - t) + gy0 b * t, gy1 = gy1 a * (1 - t) + gy1 b * t \<rparr>"

text \<open>
  The tween of lines 110 to 113, installed on every arc (every node but the root):
  \<^verbatim>\<open>
  .tween("data", d => {
      const i = d3.interpolate(d.current, d.target);
      return t => d.current = i(t);
  })
  \<close>
  d3-transition (d3 library, not part of this repository) runs the outer function when
  the transition starts, and the inner one at every later frame with the eased time
  \<open>t\<close>; with \<open>t = 1\<close> at the last frame, after which it discards the transition.
  \<open>start_tween\<close> is the outer function on one arc and those below it,
  \<open>run_tween\<close> the inner one.
\<close>

fun start_tween :: "mnode \<Rightarrow> mnode" where
  "start_tween (MNode r c t tw cs) =
     MNode r c t (case t of Some b \<Rightarrow> Some (c, b) | None \<Rightarrow> tw) (map start_tween cs)"

fun run_tween :: "real \<Rightarrow> mnode \<Rightarrow> mnode" where
  "run_tween t (MNode r c tg tw cs) =
     MNode r (case tw of Some (a, b) \<Rightarrow> interpolate a b t | None \<Rightarrow> c) tg
       (if t = 1 then None else tw) (map (run_tween t) cs)"

definition on_arcs :: "(mnode \<Rightarrow> mnode) \<Rightarrow> mnode \<Rightarrow> mnode" where
  "on_arcs f n = MNode (m_rect n) (current n) (target n) (tween n) (map f (children n))"

text \<open>
  The state of the component after the effect has run: the tree \<open>root\<close> (\<open>v_root\<close>),
  and \<open>v_parent\<close>, the datum of the centre circle \<open>parent\<close>, as the path of a node.
  \<open>v_focus\<close> is the
  path of the node that the last call of \<open>clicked\<close> received (the root before any
  click); the component does not store it. \<open>v_scheduled\<close> counts the transitions that
  \<open>clicked\<close> has created and d3 has not started yet.
\<close>

record view =
  v_root :: mnode
  v_parent :: "nat list"
  v_focus :: "nat list"
  v_scheduled :: nat

definition initial_view :: "tree_node \<Rightarrow> view" where
  "initial_view data =
     \<lparr> v_root = init_current (layout data), v_parent = [], v_focus = [], v_scheduled = 0 \<rparr>"

text \<open>
  \<open>clicked(event, p)\<close> (lines 97 to 126), for the node at \<open>path\<close>.
  \<open>p.parent || root\<close> is the path without its last step, and the root for the root.
  The handlers are bound to nodes of the tree, so a path that names no node stands for no
  click and leaves the view as it is. The handler itself sets the datum of the centre
  circle and every \<open>target\<close>, and creates the transition (\<open>path.transition(t)\<close>),
  which d3 starts at the next animation frame and not within the handler.
\<close>

definition clicked :: "nat list \<Rightarrow> view \<Rightarrow> view" where
  "clicked path st =
     (case node_at (v_root st) path of
        None \<Rightarrow> st
      | Some p \<Rightarrow>
          \<lparr> v_root = each_target (m_rect p) (v_root st),
            v_parent = butlast path,
            v_focus = path,
            v_scheduled = Suc (v_scheduled st) \<rparr>)"

text \<open>
  What d3 does at an animation frame, in the order in which its timers were created.
  \<open>tick\<close>: the running transition calls the inner function of line 112 on every arc.
  \<open>start\<close>: the oldest transition that waits to be started starts; this interrupts the
  running one (its interpolators are replaced) and calls the outer function of line 111 on
  every arc, which reads \<open>d.current\<close> and \<open>d.target\<close> as they are then.
  A transition that has started has its first tick in the same frame, after its start.
  \<open>frame\<close> is one animation frame: the running transition has its tick with the eased
  time \<open>t\<close>, then every waiting transition starts and ticks, the oldest first; the one
  with \<open>k\<close> younger ones behind it ticks with the eased time \<open>e k\<close>. The eased times
  are the caller's to choose; the clock is not modelled.
\<close>

definition tick :: "real \<Rightarrow> view \<Rightarrow> view" where
  "tick t st = st \<lparr> v_root := on_arcs (run_tween t) (v_root st) \<rparr>"

definition start :: "view \<Rightarrow> view" where
  "start st =
     (if v_scheduled st = 0 then st
      else st \<lparr> v_root := on_arcs start_tween (v_root st), v_scheduled := v_scheduled st - 1 \<rparr>)"

fun starts :: "nat \<Rightarrow> (nat \<Rightarrow> real) \<Rightarrow> view \<Rightarrow> view" where
  "starts 0 e st = st"
| "starts (Suc n) e st = starts n e (tick (e n) (start st))"

definition frame :: "real \<Rightarrow> (nat \<Rightarrow> real) \<Rightarrow> view \<Rightarrow> view" where
  "frame t e st = starts (v_scheduled st) e (tick t st)"

text \<open>
  A click that reaches an arc. The handler is attached to the arcs with children
  (\<open>path.filter(d => !!d.children).on("click", clicked)\<close>, lines 69 to 71), and the
  root has no arc. Whether the browser delivers a click to an arc depends on the arc's
  \<open>pointer-events\<close> attribute, which is \<open>auto\<close> in the initial view exactly when
  \<open>arcVisible\<close> holds of the arc's \<open>current\<close> (line 66) and which later transitions
  change; the attribute is not part of the model.
\<close>

definition click_arc :: "nat list \<Rightarrow> view \<Rightarrow> view" where
  "click_arc path st =
     (case node_at (v_root st) path of
        None \<Rightarrow> st
      | Some p \<Rightarrow> if path \<noteq> [] \<and> children p \<noteq> [] then clicked path st else st)"

text \<open>The centre circle calls \<open>clicked\<close> with its datum (lines 90 to 95).\<close>

definition click_center :: "view \<Rightarrow> view" where
  "click_center st = clicked (v_parent st) st"

subsection \<open>Documents and derived notions used in the statements\<close>

text \<open>
  The data model of the specification: a declared value is not negative, and a node
  that has children declares none.
\<close>

fun valid_tree :: "tree_node \<Rightarrow> bool" where
  "valid_tree (TreeNode nm v cs) \<longleftrightarrow>
     (case v of None \<Rightarrow> True | Some x \<Rightarrow> 0 \<le> x \<and> cs = []) \<and> (\<forall>c \<in> set cs. valid_tree c)"

text \<open>The document nodes below a document node, the node itself first.\<close>

fun subtrees :: "tree_node \<Rightarrow> tree_node list" where
  "subtrees (TreeNode nm v cs) = TreeNode nm v cs # concat (map subtrees cs)"

text \<open>
  The hierarchy node that lines 35 to 37 make for a document node found at depth \<open>d\<close>,
  and the comparator of line 37 read on document nodes.
\<close>

definition build_at :: "nat \<Rightarrow> tree_node \<Rightarrow> hnode" where
  "build_at d t = node_sort by_value_desc (node_sum value_or_zero (hierarchy_at d t))"

definition by_resolved_desc :: "tree_node \<Rightarrow> tree_node \<Rightarrow> real" where
  "by_resolved_desc a b = resolved b - resolved a"

text \<open>The document of the specification's concrete scenarios, and further examples.\<close>

definition doc :: tree_node where
  "doc = TreeNode ''root'' None [TreeNode ''A'' (Some 3) [], TreeNode ''B'' (Some 1) []]"




text \<open>
  The clamp of the specification, \<open>clamp(x, lo, hi)\<close>, and the angle it assigns to an
  original angle \<open>x\<close> when the node with rectangle \<open>p\<close> is clicked.
\<close>

definition clamp :: "real \<Rightarrow> real \<Rightarrow> real \<Rightarrow> real" where
  "clamp x lo hi = (if x < lo then lo else if hi < x then hi else x)"

definition zoom_angle :: "rect \<Rightarrow> real \<Rightarrow> real" where
  "zoom_angle p x = clamp ((x - x0 p) / (x1 p - x0 p)) 0 1 * (2 * pi)"

text \<open>
  \<open>root.descendants().slice(1)\<close>: every node but the root, the data of the paths.
\<close>

definition arcs :: "mnode \<Rightarrow> mnode list" where
  "arcs n = concat (map m_descendants (children n))"

text \<open>
  The rectangles that the layout gives to the three nodes of \<open>doc\<close>, and the targets
  that a click on A gives to A and B.
\<close>

definition rect_root :: rect where
  "rect_root = \<lparr> r_data = doc, r_depth = 0, r_height = Suc 0, r_value = 4,
                   x0 = 0, x1 = 2 * pi, y0 = 0, y1 = 1 \<rparr>"

definition rect_A :: rect where
  "rect_A = \<lparr> r_data = TreeNode ''A'' (Some 3) [], r_depth = Suc 0, r_height = 0, r_value = 3,
                x0 = 0, x1 = 3 * pi / 2, y0 = 1, y1 = 2 \<rparr>"

definition rect_B :: rect where
  "rect_B = \<lparr> r_data = TreeNode ''B'' (Some 1) [], r_depth = Suc 0, r_height = 0, r_value = 1,
                x0 = 3 * pi / 2, x1 = 2 * pi, y0 = 1, y1 = 2 \<rparr>"

definition target_A :: geom where
  "target_A = \<lparr> gx0 = Some 0, gx1 = Some (2 * pi), gy0 = 0, gy1 = 1 \<rparr>"

definition target_B :: geom where
  "target_B = \<lparr> gx0 = Some (2 * pi), gx1 = Some (2 * pi), gy0 = 0, gy1 = 1 \<rparr>"

text \<open>
  Consecutive intervals: the rectangles of \<open>cs\<close> start at \<open>a\<close>, each one starts
  where the one before ends, none has a negative width, and the last one ends at \<open>b\<close>.
\<close>

fun chain :: "real \<Rightarrow> rnode list \<Rightarrow> real \<Rightarrow> bool" where
  "chain a [] b \<longleftrightarrow> a = b"
| "chain a (c # cs) b \<longleftrightarrow>
     x0 (r_rect c) = a \<and> x0 (r_rect c) \<le> x1 (r_rect c) \<and> chain (x1 (r_rect c)) cs b"

text \<open>
  What the partition needs of a hierarchy: no negative value, and the value of a node with
  children is the sum of its children's values.
\<close>

fun good :: "hnode \<Rightarrow> bool" where
  "good (HNode d dep hg v cs) \<longleftrightarrow>
     0 \<le> v \<and> (cs \<noteq> [] \<longrightarrow> v = sum_list (map h_value cs)) \<and> (\<forall>c \<in> set cs. good c)"

text \<open>
  The factor \<open>k\<close> of \<open>treemapDice\<close>, read off the finished rectangle of the parent,
  and the facts that hold of every node of a layout.
\<close>

definition dice_factor :: "rect \<Rightarrow> real" where
  "dice_factor r = (if r_value r = 0 then 0 else (x1 r - x0 r) / r_value r)"

definition node_inv :: "rnode \<Rightarrow> bool" where
  "node_inv m \<longleftrightarrow>
     x0 (r_rect m) \<le> x1 (r_rect m) \<and> 0 \<le> r_value (r_rect m) \<and>
     (r_children m \<noteq> [] \<longrightarrow>
        r_value (r_rect m) = sum_list (map (\<lambda>c. r_value (r_rect c)) (r_children m))) \<and>
     chain (x0 (r_rect m)) (r_children m)
       (x0 (r_rect m)
          + dice_factor (r_rect m) * sum_list (map (\<lambda>c. r_value (r_rect c)) (r_children m))) \<and>
     (\<forall>c \<in> set (r_children m).
        x1 (r_rect c) - x0 (r_rect c) = r_value (r_rect c) * dice_factor (r_rect m))"

definition zero_ok :: "rnode \<Rightarrow> bool" where
  "zero_ok m \<longleftrightarrow> (r_value (r_rect m) = 0 \<longrightarrow> x0 (r_rect m) = x1 (r_rect m))"

definition pos_ok :: "hnode \<Rightarrow> real \<Rightarrow> real \<Rightarrow> rnode \<Rightarrow> bool" where
  "pos_ok h a b r \<longleftrightarrow>
     x0 (r_rect r) = a \<and> x1 (r_rect r) = b \<and> r_value (r_rect r) = h_value h \<and>
     (\<forall>m \<in> set (r_descendants r). node_inv m \<and> a \<le> x0 (r_rect m) \<and> x1 (r_rect m) \<le> b) \<and>
     ((h_value h = 0 \<longrightarrow> a = b) \<longrightarrow> (\<forall>m \<in> set (r_descendants r). zero_ok m))"

text \<open>
  The geometry a node is drawn with once the running transition has ended: its
  \<open>target\<close>, or its \<open>current\<close> as long as no click has set a target.
\<close>

definition geometry :: "mnode \<Rightarrow> geom" where
  "geometry d = (case target d of None \<Rightarrow> current d | Some g \<Rightarrow> g)"

text \<open>
  The targets of the view are those that \<open>clicked\<close> computes for the view's focus.
\<close>

definition zoomed_on :: "view \<Rightarrow> bool" where
  "zoomed_on st \<longleftrightarrow>
     (case node_at (v_root st) (v_focus st) of
        None \<Rightarrow> False
      | Some f \<Rightarrow>
          \<forall>d \<in> set (m_descendants (v_root st)). target d = Some (target_of (m_rect f) (m_rect d)))"

text \<open>
  A document that is a chain of four nodes, root, A, B and C, with the rectangles and the
  initial nodes that the layout makes of it: every node spans the full circle, and the node
  of depth \<open>d\<close> has the radial band from \<open>d\<close> to \<open>d + 1\<close>.
\<close>

definition deep_doc :: tree_node where
  "deep_doc =
     TreeNode ''root'' None
       [TreeNode ''A'' None [TreeNode ''B'' None [TreeNode ''C'' (Some 1) []]]]"

definition rect_deep :: "nat \<Rightarrow> tree_node \<Rightarrow> rect" where
  "rect_deep d t = \<lparr> r_data = t, r_depth = d, r_height = 3 - d, r_value = 1,
                      x0 = 0, x1 = 2 * pi, y0 = real d, y1 = real d + 1 \<rparr>"

definition doc_A :: tree_node where
  "doc_A = TreeNode ''A'' None [TreeNode ''B'' None [TreeNode ''C'' (Some 1) []]]"

definition doc_B :: tree_node where
  "doc_B = TreeNode ''B'' None [TreeNode ''C'' (Some 1) []]"

definition doc_C :: tree_node where
  "doc_C = TreeNode ''C'' (Some 1) []"

definition mnode_deep :: "nat \<Rightarrow> tree_node \<Rightarrow> mnode list \<Rightarrow> mnode" where
  "mnode_deep d t cs = MNode (rect_deep d t) (rect_geom (rect_deep d t)) None None cs"

text \<open>
  The view of \<open>deep_doc\<close> half-way through the transition that a click on A starts.
\<close>

definition mid_flight :: view where
  "mid_flight = tick (1 / 2) (start (click_arc [0] (initial_view deep_doc)))"

text \<open>
  The target as claim C8 words it: the formula of \<open>clicked\<close> read on the node's
  \<open>current\<close>, interpolated, geometry in place of its layout rectangle.
\<close>

definition target_from_current :: "rect \<Rightarrow> geom \<Rightarrow> geom" where
  "target_from_current p c =
     \<lparr> gx0 = Option.bind (gx0 c)
               (\<lambda>x. map_option (\<lambda>r. r * 2 * pi) (clamp_ratio (x - x0 p) (x1 p - x0 p))),
       gx1 = Option.bind (gx1 c)
               (\<lambda>x. map_option (\<lambda>r. r * 2 * pi) (clamp_ratio (x - x0 p) (x1 p - x0 p))),
       gy0 = max 0 (gy0 c - real (r_depth p)),
       gy1 = max 0 (gy1 c - real (r_depth p)) \<rparr>"

subsection \<open>IEEE double arithmetic\<close>

text \<open>
  Where rounding decides a claim, the numbers are read as what they are in JavaScript, IEEE
  754 binary64 values: the finite ones (a real number each; the sign of zero is not
  kept), the two infinities and NaN.
\<close>

datatype jsnum = Fin real | PInf | NInf | NaN

text \<open>
  Rounding to the nearest double, ties to the even significand. A real number \<open>x\<close> other
  than 0 lies in the binade \<open>2 ^ e \<le> \<bar>x\<bar> < 2 ^ (e + 1)\<close>; the doubles of that binade
  are the multiples of \<open>2 ^ (e - 52)\<close>, and below \<open>2 ^ (- 1022)\<close> (the subnormal
  range) they are the multiples of \<open>2 ^ (- 1074)\<close>. \<open>rnd x\<close> is the nearest multiple,
  and \<open>to_double\<close> makes it an infinity when it reaches \<open>2 ^ 1024\<close>.
\<close>

definition binade :: "real \<Rightarrow> int" where
  "binade x = \<lfloor>log 2 \<bar>x\<bar>\<rfloor>"

definition quantum :: "real \<Rightarrow> real" where
  "quantum x = 2 powi (max (binade x) (- 1022) - 52)"

definition round_even :: "real \<Rightarrow> int" where
  "round_even x =
     (let f = \<lfloor>x\<rfloor>; d = x - of_int f
      in if d < 1 / 2 then f else if 1 / 2 < d then f + 1 else if even f then f else f + 1)"

definition rnd :: "real \<Rightarrow> real" where
  "rnd x = of_int (round_even (x / quantum x)) * quantum x"

definition to_double :: "real \<Rightarrow> jsnum" where
  "to_double x =
     (if x = 0 then Fin 0
      else let r = of_int (round_even (x / quantum x)) * quantum x
           in if 2 ^ 1024 \<le> \<bar>r\<bar> then (if 0 < x then PInf else NInf) else Fin r)"

text \<open>
  The operators \<open>+\<close>, \<open>-\<close>, \<open>*\<close>, \<open>/\<close> and \<open><\<close> of JavaScript on these
  values: the exact result rounded to the nearest double, and the IEEE rules for the
  infinities and NaN. A zero divisor is read as \<open>+0\<close>.
\<close>

fun js_neg :: "jsnum \<Rightarrow> jsnum" where
  "js_neg (Fin x) = Fin (- x)"
| "js_neg PInf = NInf"
| "js_neg NInf = PInf"
| "js_neg NaN = NaN"

fun js_add :: "jsnum \<Rightarrow> jsnum \<Rightarrow> jsnum" where
  "js_add (Fin x) (Fin y) = to_double (x + y)"
| "js_add NaN b = NaN"
| "js_add a NaN = NaN"
| "js_add PInf NInf = NaN"
| "js_add NInf PInf = NaN"
| "js_add PInf b = PInf"
| "js_add a PInf = PInf"
| "js_add NInf b = NInf"
| "js_add a NInf = NInf"

definition js_sub :: "jsnum \<Rightarrow> jsnum \<Rightarrow> jsnum" where
  "js_sub a b = js_add a (js_neg b)"

fun js_mul :: "jsnum \<Rightarrow> jsnum \<Rightarrow> jsnum" where
  "js_mul (Fin x) (Fin y) = to_double (x * y)"
| "js_mul NaN b = NaN"
| "js_mul a NaN = NaN"
| "js_mul (Fin x) PInf = (if x = 0 then NaN else if 0 < x then PInf else NInf)"
| "js_mul (Fin x) NInf = (if x = 0 then NaN else if 0 < x then NInf else PInf)"
| "js_mul PInf (Fin y) = (if y = 0 then NaN else if 0 < y then PInf else NInf)"
| "js_mul NInf (Fin y) = (if y = 0 then NaN else if 0 < y then NInf else PInf)"
| "js_mul PInf PInf = PInf"
| "js_mul PInf NInf = NInf"
| "js_mul NInf PInf = NInf"
| "js_mul NInf NInf = PInf"

fun js_div :: "jsnum \<Rightarrow> jsnum \<Rightarrow> jsnum" where
  "js_div (Fin x) (Fin y) =
     (if y = 0 then (if x = 0 then NaN else if 0 < x then PInf else NInf)
      else to_double (x / y))"
| "js_div NaN b = NaN"
| "js_div a NaN = NaN"
| "js_div (Fin x) PInf = Fin 0"
| "js_div (Fin x) NInf = Fin 0"
| "js_div PInf (Fin y) = (if 0 \<le> y then PInf else NInf)"
| "js_div NInf (Fin y) = (if 0 \<le> y then NInf else PInf)"
| "js_div PInf PInf = NaN"
| "js_div PInf NInf = NaN"
| "js_div NInf PInf = NaN"
| "js_div NInf NInf = NaN"

fun js_lt :: "jsnum \<Rightarrow> jsnum \<Rightarrow> bool" where
  "js_lt (Fin x) (Fin y) \<longleftrightarrow> x < y"
| "js_lt (Fin x) PInf \<longleftrightarrow> True"
| "js_lt (Fin x) NInf \<longleftrightarrow> False"
| "js_lt (Fin x) NaN \<longleftrightarrow> False"
| "js_lt PInf b \<longleftrightarrow> False"
| "js_lt NInf (Fin y) \<longleftrightarrow> True"
| "js_lt NInf PInf \<longleftrightarrow> True"
| "js_lt NInf NInf \<longleftrightarrow> False"
| "js_lt NInf NaN \<longleftrightarrow> False"
| "js_lt NaN b \<longleftrightarrow> False"

text \<open>
  \<open>a && b\<close> and \<open>a || b\<close> take \<open>a\<close> for false when it is 0 or NaN.
\<close>

fun truthy :: "jsnum \<Rightarrow> bool" where
  "truthy (Fin x) \<longleftrightarrow> x \<noteq> 0"
| "truthy PInf \<longleftrightarrow> True"
| "truthy NInf \<longleftrightarrow> True"
| "truthy NaN \<longleftrightarrow> False"

definition js_or_zero :: "jsnum \<Rightarrow> jsnum" where
  "js_or_zero a = (if truthy a then a else Fin 0)"

text \<open>
  A d3 hierarchy node whose \<open>value\<close> is a double, and d3.hierarchy, node.sum and node.sort
  (d3 library, not part of this repository) as above, with the additions of \<open>sum += children[i].value\<close> rounded.
\<close>

datatype fnode = FNode (f_data: tree_node) (f_depth: nat) (f_height: nat) (f_value: jsnum)
  (f_children: "fnode list")

fun fl_hierarchy_at :: "nat \<Rightarrow> tree_node \<Rightarrow> fnode" where
  "fl_hierarchy_at d (TreeNode nm v cs) =
     (let ks = map (fl_hierarchy_at (Suc d)) cs in
      FNode (TreeNode nm v cs) d
        (if ks = [] then 0 else Suc (foldr max (map f_height ks) 0)) (Fin 0) ks)"

definition fl_hierarchy :: "tree_node \<Rightarrow> fnode" where
  "fl_hierarchy t = fl_hierarchy_at 0 t"

fun fl_node_sum :: "(tree_node \<Rightarrow> jsnum) \<Rightarrow> fnode \<Rightarrow> fnode" where
  "fl_node_sum f (FNode d dep hg v cs) =
     (let cs' = map (fl_node_sum f) cs in
      FNode d dep hg (foldr (\<lambda>c s. js_add s (f_value c)) cs' (js_or_zero (f d))) cs')"

text \<open>
  The component's callback \<open>d => d.value ?? 0\<close>. A declared value of the document, a
  real number here, stands for the double nearest to it.
\<close>

definition fl_value_or_zero :: "tree_node \<Rightarrow> jsnum" where
  "fl_value_or_zero d = (case declared d of None \<Rightarrow> Fin 0 | Some v \<Rightarrow> to_double v)"

function fl_node_sort :: "(fnode \<Rightarrow> fnode \<Rightarrow> real) \<Rightarrow> fnode \<Rightarrow> fnode" where
  "fl_node_sort cmp (FNode d dep hg v cs) =
     FNode d dep hg v (map (fl_node_sort cmp) (array_sort cmp cs))"
  by pat_completeness auto
termination
proof (relation "measure (\<lambda>(cmp, n). size n)")
  show "wf (measure (\<lambda>(cmp :: fnode \<Rightarrow> fnode \<Rightarrow> real, n). size n))"
    by simp
next
  fix cmp :: "fnode \<Rightarrow> fnode \<Rightarrow> real" and d dep hg v cs x
  assume x: "x \<in> set (array_sort cmp cs)"
  have ins: "set (insert_by cmp y ys) = insert y (set ys)" for y and ys :: "fnode list"
    by (induction ys) auto
  have "set (array_sort cmp ys) = set ys" for ys
    by (induction ys) (simp_all add: array_sort_def ins)
  with x have "x \<in> set cs"
    by simp
  then have "size x \<le> size_list size cs"
    by (simp add: size_list_estimation')
  then show "((cmp, x), (cmp, FNode d dep hg v cs)) \<in> measure (\<lambda>(cmp, n). size n)"
    by simp
qed

text \<open>
  The component's comparator \<open>(a, b) => (b.value ?? 0) - (a.value ?? 0)\<close>.
  Array.prototype.sort reads a comparator result of NaN as 0, and otherwise only its sign.
\<close>

fun sort_key :: "jsnum \<Rightarrow> real" where
  "sort_key (Fin r) = r"
| "sort_key PInf = 1"
| "sort_key NInf = - 1"
| "sort_key NaN = 0"

definition fl_by_value_desc :: "fnode \<Rightarrow> fnode \<Rightarrow> real" where
  "fl_by_value_desc a b = sort_key (js_sub (f_value b) (f_value a))"

text \<open>
  The constant \<open>hierarchy\<close> of the component (lines 35 to 37) in double arithmetic, its
  nodes, and the resolved weight of a document node in double arithmetic.
\<close>

definition fl_build_hierarchy :: "tree_node \<Rightarrow> fnode" where
  "fl_build_hierarchy data =
     fl_node_sort fl_by_value_desc (fl_node_sum fl_value_or_zero (fl_hierarchy data))"

fun f_descendants :: "fnode \<Rightarrow> fnode list" where
  "f_descendants (FNode d dep hg v cs) =
     FNode d dep hg v cs # concat (map f_descendants cs)"

definition fl_resolved :: "tree_node \<Rightarrow> jsnum" where
  "fl_resolved t = f_value (fl_node_sum fl_value_or_zero (fl_hierarchy t))"

text \<open>
  The hierarchy node made for a document node found at depth \<open>d\<close>, and the comparator of
  line 37 read on document nodes, in double arithmetic.
\<close>

definition fl_build_at :: "nat \<Rightarrow> tree_node \<Rightarrow> fnode" where
  "fl_build_at d t = fl_node_sort fl_by_value_desc (fl_node_sum fl_value_or_zero (fl_hierarchy_at d t))"

definition fl_by_resolved_desc :: "tree_node \<Rightarrow> tree_node \<Rightarrow> real" where
  "fl_by_resolved_desc a b = sort_key (js_sub (fl_resolved b) (fl_resolved a))"

text \<open>
  Every declared value of the document is a whole number.
\<close>

fun whole_tree :: "tree_node \<Rightarrow> bool" where
  "whole_tree (TreeNode nm v cs) \<longleftrightarrow>
     (case v of None \<Rightarrow> True | Some x \<Rightarrow> of_int \<lfloor>x\<rfloor> = x) \<and> (\<forall>c \<in> set cs. whole_tree c)"

text \<open>
  A document with the weights \<open>2 ^ 53\<close> and 1.
\<close>

definition big_doc :: tree_node where
  "big_doc =
     TreeNode ''root'' None
       [TreeNode ''A'' (Some 9007199254740992) [], TreeNode ''B'' (Some 1) []]"

subsection \<open>The partition in double arithmetic\<close>

text \<open>
  \<open>Math.PI\<close>, the double nearest to \<open>pi\<close> (bit pattern 400921FB54442D18).
\<close>

definition math_pi :: real where
  "math_pi = 884279719003555 / 2 ^ 48"

text \<open>
  A node after the partition layout, with doubles for its numbers, and d3.partition
  (d3 library, not part of this repository) as above with every operation rounded.
  \<open>parent.value && (x1 - x0) / parent.value\<close> is the value itself when that is 0 or
  NaN. With \<open>padding = 0\<close> the subtraction \<open>node.x1 - padding\<close> returns \<open>node.x1\<close>
  whatever double that is, and is left out.
\<close>

record frect =
  fr_data :: tree_node
  fr_depth :: nat
  fr_height :: nat
  fr_value :: jsnum
  fx0 :: jsnum
  fx1 :: jsnum
  fy0 :: jsnum
  fy1 :: jsnum

datatype frnode = FRNode (fr_rect: frect) (fr_children: "frnode list")

fun fl_position_node ::
    "jsnum \<Rightarrow> nat \<Rightarrow> jsnum \<Rightarrow> jsnum \<Rightarrow> jsnum \<Rightarrow> jsnum \<Rightarrow> fnode \<Rightarrow> frnode"
  and fl_dice ::
    "jsnum \<Rightarrow> nat \<Rightarrow> jsnum \<Rightarrow> jsnum \<Rightarrow> jsnum \<Rightarrow> jsnum \<Rightarrow> fnode list \<Rightarrow> frnode list"
where
  "fl_position_node dy n ax0 ay0 ax1 ay1 (FNode d dep hg v cs) =
     (let k = (if truthy v then js_div (js_sub ax1 ax0) v else v);
          ks = fl_dice dy n k ax0
                 (js_div (js_mul dy (Fin (real dep + 1))) (Fin (real n)))
                 (js_div (js_mul dy (Fin (real dep + 2))) (Fin (real n))) cs
      in FRNode \<lparr> fr_data = d, fr_depth = dep, fr_height = hg, fr_value = v,
                  fx0 = (if js_lt ax1 ax0 then js_div (js_add ax0 ax1) (Fin 2) else ax0),
                  fx1 = (if js_lt ax1 ax0 then js_div (js_add ax0 ax1) (Fin 2) else ax1),
                  fy0 = (if js_lt ay1 ay0 then js_div (js_add ay0 ay1) (Fin 2) else ay0),
                  fy1 = (if js_lt ay1 ay0 then js_div (js_add ay0 ay1) (Fin 2) else ay1) \<rparr> ks)"
| "fl_dice dy n k x cy0 cy1 [] = []"
| "fl_dice dy n k x cy0 cy1 (c # cs) =
     fl_position_node dy n x cy0 (js_add x (js_mul (f_value c) k)) cy1 c
       # fl_dice dy n k (js_add x (js_mul (f_value c) k)) cy0 cy1 cs"

definition fl_partition :: "jsnum \<Rightarrow> jsnum \<Rightarrow> fnode \<Rightarrow> frnode" where
  "fl_partition dx dy h =
     (let n = f_height h + 1
      in fl_position_node dy n (Fin 0) (Fin 0) dx (js_div dy (Fin (real n))) h)"

text \<open>The constant \<open>root\<close> of the component (lines 39 to 41) in double arithmetic.\<close>

definition fl_layout :: "tree_node \<Rightarrow> frnode" where
  "fl_layout data =
     (let h = fl_build_hierarchy data
      in fl_partition (js_mul (Fin 2) (Fin math_pi)) (Fin (real (f_height h + 1))) h)"

fun fr_descendants :: "frnode \<Rightarrow> frnode list" where
  "fr_descendants (FRNode r cs) = FRNode r cs # concat (map fr_descendants cs)"

text \<open>
  Notions for the statements. A finite double; \<open>a <= b\<close>; a value that is not negative;
  consecutive intervals, as \<open>chain\<close> above but with no word on where the last one ends;
  the factor \<open>k\<close> of \<open>treemapDice\<close> read off the finished rectangle of the parent; a
  layout whose angles are all finite; a hierarchy without a negative value; the hierarchy
  node that a layout node is (d3.partition writes the rectangle into the hierarchy node).
\<close>

fun is_fin :: "jsnum \<Rightarrow> bool" where
  "is_fin (Fin x) \<longleftrightarrow> True"
| "is_fin PInf \<longleftrightarrow> False"
| "is_fin NInf \<longleftrightarrow> False"
| "is_fin NaN \<longleftrightarrow> False"

definition js_le :: "jsnum \<Rightarrow> jsnum \<Rightarrow> bool" where
  "js_le a b \<longleftrightarrow> js_lt a b \<or> (a = b \<and> a \<noteq> NaN)"

fun js_nonneg :: "jsnum \<Rightarrow> bool" where
  "js_nonneg (Fin x) \<longleftrightarrow> 0 \<le> x"
| "js_nonneg PInf \<longleftrightarrow> True"
| "js_nonneg NInf \<longleftrightarrow> False"
| "js_nonneg NaN \<longleftrightarrow> False"

fun fl_chain :: "jsnum \<Rightarrow> frnode list \<Rightarrow> bool" where
  "fl_chain a [] \<longleftrightarrow> True"
| "fl_chain a (c # cs) \<longleftrightarrow>
     fx0 (fr_rect c) = a \<and> js_le (fx0 (fr_rect c)) (fx1 (fr_rect c)) \<and> fl_chain (fx1 (fr_rect c)) cs"

definition fl_dice_factor :: "frect \<Rightarrow> jsnum" where
  "fl_dice_factor r =
     (if truthy (fr_value r) then js_div (js_sub (fx1 r) (fx0 r)) (fr_value r) else fr_value r)"

definition finite_layout :: "frnode \<Rightarrow> bool" where
  "finite_layout r \<longleftrightarrow>
     (\<forall>m \<in> set (fr_descendants r). is_fin (fx0 (fr_rect m)) \<and> is_fin (fx1 (fr_rect m)))"

definition fl_node_ok :: "frnode \<Rightarrow> bool" where
  "fl_node_ok m \<longleftrightarrow>
     js_le (fx0 (fr_rect m)) (fx1 (fr_rect m)) \<and>
     fl_chain (fx0 (fr_rect m)) (fr_children m) \<and>
     (\<forall>c \<in> set (fr_children m).
        fx1 (fr_rect c)
          = js_add (fx0 (fr_rect c)) (js_mul (fr_value (fr_rect c)) (fl_dice_factor (fr_rect m))))"

fun fl_good :: "fnode \<Rightarrow> bool" where
  "fl_good (FNode d dep hg v cs) \<longleftrightarrow> js_nonneg v \<and> (\<forall>c \<in> set cs. fl_good c)"

fun hierarchy_of :: "frnode \<Rightarrow> fnode" where
  "hierarchy_of (FRNode r cs) =
     FNode (fr_data r) (fr_depth r) (fr_height r) (fr_value r) (map hierarchy_of cs)"

text \<open>A document with the weights 5, 4 and 2.\<close>

definition over_doc :: tree_node where
  "over_doc =
     TreeNode ''root'' None
       [TreeNode ''A'' (Some 5) [], TreeNode ''B'' (Some 4) [], TreeNode ''C'' (Some 2) []]"

section \<open>Properties\<close>

subsection \<open>Resolved weights and sibling order\<close>

lemma foldr_add_values:
  "foldr (\<lambda>c s. s + h_value c) cs a = a + sum_list (map h_value cs)"
  by (induction cs) simp_all

lemma node_sum_fields:
  "h_data (node_sum f h) = h_data h" "h_depth (node_sum f h) = h_depth h"
  "h_height (node_sum f h) = h_height h"
  by (cases h; simp add: Let_def)+

lemma node_sum_hierarchy_at:
  "node_sum f (hierarchy_at d (TreeNode nm v cs)) =
     HNode (TreeNode nm v cs) d
       (if cs = [] then 0
        else Suc (foldr max (map (\<lambda>c. h_height (node_sum f (hierarchy_at (Suc d) c))) cs) 0))
       (f (TreeNode nm v cs)
          + sum_list (map (\<lambda>c. h_value (node_sum f (hierarchy_at (Suc d) c))) cs))
       (map (\<lambda>c. node_sum f (hierarchy_at (Suc d) c)) cs)"
  by (simp add: Let_def foldr_add_values comp_def node_sum_fields)

lemma node_sum_value_depth:
  "h_value (node_sum f (hierarchy_at d t)) = h_value (node_sum f (hierarchy_at d' t))"
proof (induction t arbitrary: d d')
  case (TreeNode nm v cs)
  have "map (\<lambda>c. h_value (node_sum f (hierarchy_at (Suc d) c))) cs
      = map (\<lambda>c. h_value (node_sum f (hierarchy_at (Suc d') c))) cs"
    using TreeNode.IH by (intro map_cong) auto
  then show ?case
    unfolding node_sum_hierarchy_at by (simp only: hnode.sel)
qed

lemma value_at_depth: "h_value (node_sum value_or_zero (hierarchy_at d t)) = resolved t"
  unfolding resolved_def hierarchy_def by (rule node_sum_value_depth)

lemma resolved_unfold:
  "resolved (TreeNode nm v cs) = value_or_zero (TreeNode nm v cs) + sum_list (map resolved cs)"
proof -
  have "resolved (TreeNode nm v cs)
      = h_value (node_sum value_or_zero (hierarchy_at 0 (TreeNode nm v cs)))"
    by (simp only: resolved_def hierarchy_def)
  also have "\<dots> = value_or_zero (TreeNode nm v cs) + sum_list (map resolved cs)"
    unfolding node_sum_hierarchy_at by (simp add: value_at_depth)
  finally show ?thesis .
qed

lemma insert_by_map:
  "insert_by cmp (g x) (map g ys) = map g (insert_by (\<lambda>a b. cmp (g a) (g b)) x ys)"
  by (induction ys) simp_all

lemma array_sort_map:
  "array_sort cmp (map g xs) = map g (array_sort (\<lambda>a b. cmp (g a) (g b)) xs)"
  by (induction xs) (simp_all add: array_sort_def insert_by_map)

lemma set_insert_by: "set (insert_by cmp x ys) = insert x (set ys)"
  by (induction ys) auto

lemma set_array_sort: "set (array_sort cmp xs) = set xs"
  by (induction xs) (simp_all add: array_sort_def set_insert_by)

lemma sum_list_insert_by: "sum_list (map f (insert_by cmp x ys)) = f x + sum_list (map f ys)"
  for f :: "'a \<Rightarrow> real"
  by (induction ys) simp_all

lemma sum_list_array_sort: "sum_list (map f (array_sort cmp xs)) = sum_list (map f xs)"
  for f :: "'a \<Rightarrow> real"
  by (induction xs) (simp_all add: array_sort_def sum_list_insert_by)

lemma node_sort_fields:
  "h_value (node_sort cmp h) = h_value h" "h_data (node_sort cmp h) = h_data h"
  "h_depth (node_sort cmp h) = h_depth h" "h_height (node_sort cmp h) = h_height h"
  by (cases h; simp)+

lemma build_at_unfold:
  "build_at d (TreeNode nm v cs) =
     HNode (TreeNode nm v cs) d
       (if cs = [] then 0 else Suc (foldr max (map (\<lambda>c. h_height (build_at (Suc d) c)) cs) 0))
       (resolved (TreeNode nm v cs))
       (map (build_at (Suc d)) (array_sort by_resolved_desc cs))"
proof -
  let ?g = "\<lambda>c. node_sum value_or_zero (hierarchy_at (Suc d) c)"
  have cmp: "(\<lambda>a b. by_value_desc (?g a) (?g b)) = by_resolved_desc"
    by (simp add: fun_eq_iff by_value_desc_def by_resolved_desc_def value_at_depth)
  have srt: "array_sort by_value_desc (map ?g cs) = map ?g (array_sort by_resolved_desc cs)"
    using array_sort_map [of by_value_desc ?g cs] by (simp only: cmp)
  have hg: "(\<lambda>c. h_height (?g c)) = (\<lambda>c. h_height (build_at (Suc d) c))"
    by (simp add: fun_eq_iff build_at_def node_sort_fields)
  have "build_at d (TreeNode nm v cs)
      = node_sort by_value_desc (node_sum value_or_zero (hierarchy_at d (TreeNode nm v cs)))"
    by (simp only: build_at_def)
  also have "\<dots> = HNode (TreeNode nm v cs) d
       (if cs = [] then 0 else Suc (foldr max (map (\<lambda>c. h_height (?g c)) cs) 0))
       (value_or_zero (TreeNode nm v cs) + sum_list (map resolved cs))
       (map (node_sort by_value_desc) (map ?g (array_sort by_resolved_desc cs)))"
    unfolding node_sum_hierarchy_at by (simp add: srt value_at_depth)
  also have "\<dots> = HNode (TreeNode nm v cs) d
       (if cs = [] then 0 else Suc (foldr max (map (\<lambda>c. h_height (build_at (Suc d) c)) cs) 0))
       (resolved (TreeNode nm v cs))
       (map (build_at (Suc d)) (array_sort by_resolved_desc cs))"
    by (simp add: hg resolved_unfold build_at_def [abs_def])
  finally show ?thesis .
qed

lemma subtrees_self: "t \<in> set (subtrees t)"
  by (cases t) simp

lemma valid_subtrees: "valid_tree t \<Longrightarrow> s \<in> set (subtrees t) \<Longrightarrow> valid_tree s"
  by (induction t) auto


lemma build_at_fields:
  "h_data (build_at d t) = t" "h_value (build_at d t) = resolved t" "h_depth (build_at d t) = d"
  "h_children (build_at d t) = map (build_at (Suc d)) (array_sort by_resolved_desc (kids t))"
  by (cases t; simp add: build_at_unfold)+


lemma array_sort_Nil_iff: "array_sort cmp xs = [] \<longleftrightarrow> xs = []"
  using set_array_sort [of cmp xs] by (metis set_empty)


lemma build_hierarchy_build_at: "build_hierarchy data = build_at 0 data"
  by (simp add: build_hierarchy_def build_at_def hierarchy_def)
















subsection \<open>The layout of the example document\<close>

lemma layout_doc_eval:
  "layout doc =
     RNode \<lparr> r_data = doc, r_depth = 0, r_height = Suc 0, r_value = 4,
             x0 = 0, x1 = 2 * pi, y0 = 0, y1 = 1 \<rparr>
       [RNode \<lparr> r_data = TreeNode ''A'' (Some 3) [], r_depth = Suc 0, r_height = 0, r_value = 3,
                x0 = 0, x1 = 3 * pi / 2, y0 = 1, y1 = 2 \<rparr> [],
        RNode \<lparr> r_data = TreeNode ''B'' (Some 1) [], r_depth = Suc 0, r_height = 0, r_value = 1,
                x0 = 3 * pi / 2, x1 = 2 * pi, y0 = 1, y1 = 2 \<rparr> []]"
  by (simp add: doc_def layout_def d3_partition_def build_hierarchy_def hierarchy_def
      value_or_zero_def array_sort_def by_value_desc_def)

text \<open>
  Claim C3, as stated, fails in its last part: in the layout of \<open>doc\<close> the radial band of
  A does not start at 0 and does not end at 1.
\<close>

theorem scenario_layout_counterexample:
  "y0 (r_rect (r_children (layout doc) ! 0)) \<noteq> 0 \<and> y1 (r_rect (r_children (layout doc) ! 0)) \<noteq> 1"
  by (simp add: layout_doc_eval)

text \<open>
  Claim C3, amended. The layout of \<open>doc\<close> gives A the angles 0 to 1.5 pi and B the
  angles 1.5 pi to 2 pi; both lie in the radial band from 1 to 2, and the band from 0 to 1
  is the root's.
\<close>

theorem scenario_layout:
  "map (\<lambda>c. (name (r_data (r_rect c)), x0 (r_rect c), x1 (r_rect c), y0 (r_rect c), y1 (r_rect c)))
       (r_children (layout doc))
     = [(''A'', 0, 3 / 2 * pi, 1, 2), (''B'', 3 / 2 * pi, 2 * pi, 1, 2)] \<and>
   y0 (r_rect (layout doc)) = 0 \<and> y1 (r_rect (layout doc)) = 1"
  by (simp add: layout_doc_eval)

subsection \<open>The targets that a click assigns\<close>

lemma each_target_fields:
  "m_rect (each_target pr d) = m_rect d" "current (each_target pr d) = current d"
  "target (each_target pr d) = Some (target_of pr (m_rect d))" "tween (each_target pr d) = tween d"
  "children (each_target pr d) = map (each_target pr) (children d)"
  by (cases d; simp; fail)+

lemma start_tween_fields:
  "m_rect (start_tween d) = m_rect d" "current (start_tween d) = current d"
  "target (start_tween d) = target d"
  "tween (start_tween d) = (case target d of Some b \<Rightarrow> Some (current d, b) | None \<Rightarrow> tween d)"
  "children (start_tween d) = map start_tween (children d)"
  by (cases d; simp split: option.split; fail)+

lemma run_tween_fields:
  "m_rect (run_tween t d) = m_rect d"
  "current (run_tween t d) = (case tween d of Some (a, b) \<Rightarrow> interpolate a b t | None \<Rightarrow> current d)"
  "target (run_tween t d) = target d"
  "tween (run_tween t d) = (if t = 1 then None else tween d)"
  "children (run_tween t d) = map (run_tween t) (children d)"
  by (cases d; simp split: option.split prod.split; fail)+

lemma descendants_each_target:
  "m_descendants (each_target pr n) = map (each_target pr) (m_descendants n)"
proof (induction n)
  case (MNode r c t tw cs)
  then have "map (\<lambda>x. m_descendants (each_target pr x)) cs
           = map (\<lambda>x. map (each_target pr) (m_descendants x)) cs"
    by (intro map_cong) auto
  then have "concat (map (\<lambda>x. m_descendants (each_target pr x)) cs)
           = concat (map (\<lambda>x. map (each_target pr) (m_descendants x)) cs)"
    by (rule arg_cong)
  then show ?case
    by (simp add: map_concat comp_def)
qed

lemma descendants_start_tween:
  "m_descendants (start_tween n) = map start_tween (m_descendants n)"
proof (induction n)
  case (MNode r c t tw cs)
  then have "map (\<lambda>x. m_descendants (start_tween x)) cs
           = map (\<lambda>x. map start_tween (m_descendants x)) cs"
    by (intro map_cong) auto
  then have "concat (map (\<lambda>x. m_descendants (start_tween x)) cs)
           = concat (map (\<lambda>x. map (start_tween) (m_descendants x)) cs)"
    by (rule arg_cong)
  then show ?case
    by (simp add: map_concat comp_def)
qed

lemma descendants_run_tween:
  "m_descendants (run_tween t n) = map (run_tween t) (m_descendants n)"
proof (induction n)
  case (MNode r c tg tw cs)
  then have "map (\<lambda>x. m_descendants (run_tween t x)) cs
           = map (\<lambda>x. map (run_tween t) (m_descendants x)) cs"
    by (intro map_cong) auto
  then have "concat (map (\<lambda>x. m_descendants (run_tween t x)) cs)
           = concat (map (\<lambda>x. map (run_tween t) (m_descendants x)) cs)"
    by (rule arg_cong)
  then show ?case
    by (simp add: map_concat comp_def)
qed

lemma descendants_unfold: "m_descendants n = n # arcs n"
  by (cases n) (simp add: arcs_def)

lemma on_arcs_fields:
  "m_rect (on_arcs f n) = m_rect n" "current (on_arcs f n) = current n"
  "target (on_arcs f n) = target n" "tween (on_arcs f n) = tween n"
  "children (on_arcs f n) = map f (children n)"
  by (simp_all add: on_arcs_def)

lemma arcs_on_arcs:
  assumes "\<And>c. m_descendants (f c) = map f (m_descendants c)"
  shows "arcs (on_arcs f n) = map f (arcs n)"
  by (simp add: arcs_def on_arcs_fields assms map_concat comp_def)

lemma arcs_each_target: "arcs (each_target pr n) = map (each_target pr) (arcs n)"
  by (simp add: arcs_def each_target_fields descendants_each_target map_concat comp_def)

lemma clicked_root:
  assumes "node_at (v_root st) path = Some p"
  shows "v_root (clicked path st) = each_target (m_rect p) (v_root st)"
    and "v_parent (clicked path st) = butlast path" and "v_focus (clicked path st) = path"
    and "v_scheduled (clicked path st) = Suc (v_scheduled st)"
  using assms by (simp_all add: clicked_def)

lemma clicked_targets:
  assumes "node_at (v_root st) path = Some p"
  shows "map target (m_descendants (v_root (clicked path st)))
       = map (\<lambda>d. Some (target_of (m_rect p) (m_rect d))) (m_descendants (v_root st))"
    and "map m_rect (m_descendants (v_root (clicked path st))) = map m_rect (m_descendants (v_root st))"
    and "map current (m_descendants (v_root (clicked path st))) = map current (m_descendants (v_root st))"
  unfolding clicked_root(1) [OF assms] descendants_each_target
  by (simp_all add: each_target_fields comp_def)

lemma clicked_target_of:
  assumes "node_at (v_root st) path = Some p"
    and "d \<in> set (m_descendants (v_root (clicked path st)))"
  shows "target d = Some (target_of (m_rect p) (m_rect d))"
proof -
  let ?ds = "m_descendants (v_root (clicked path st))"
  from assms(2) obtain i where i: "i < length ?ds" "?ds ! i = d"
    by (auto simp: in_set_conv_nth)
  have len: "length (m_descendants (v_root st)) = length ?ds"
    using clicked_targets(2) [OF assms(1)] by (metis length_map)
  have "target d = map target ?ds ! i"
    using i by simp
  also have "\<dots> = Some (target_of (m_rect p) (m_rect (m_descendants (v_root st) ! i)))"
    unfolding clicked_targets(1) [OF assms(1)] using i len by simp
  also have "m_rect (m_descendants (v_root st) ! i) = map m_rect (m_descendants (v_root st)) ! i"
    using i len by simp
  also have "\<dots> = m_rect d"
    unfolding clicked_targets(2) [OF assms(1), symmetric] using i by simp
  finally show ?thesis .
qed

lemma max_min_clamp: "max 0 (min 1 x) = clamp x 0 1"
  by (simp add: clamp_def max_def min_def)

lemma clamp_ratio_pos: "0 < b \<Longrightarrow> clamp_ratio a b = Some (clamp (a / b) 0 1)"
  by (simp add: clamp_ratio_def max_min_clamp)

lemma clamp_bounds: "0 \<le> clamp x 0 1" "clamp x 0 1 \<le> 1"
  by (simp_all add: clamp_def)

lemma clamp_low: "x \<le> 0 \<Longrightarrow> clamp x 0 1 = 0"
  by (simp add: clamp_def)

lemma clamp_high: "1 \<le> x \<Longrightarrow> clamp x 0 1 = 1"
  by (simp add: clamp_def)

lemma zoom_angle_bounds: "0 \<le> zoom_angle p x \<and> zoom_angle p x \<le> 2 * pi"
proof -
  let ?c = "clamp ((x - x0 p) / (x1 p - x0 p)) 0 1"
  have "0 \<le> ?c" "?c \<le> 1"
    by (rule clamp_bounds)+
  then have "0 \<le> ?c * (2 * pi)" "?c * (2 * pi) \<le> 1 * (2 * pi)"
    by (simp_all add: mult_right_mono)
  then show ?thesis
    by (simp add: zoom_angle_def)
qed

lemma zoom_angle_outside:
  assumes "x0 p < x1 p" and "a \<le> b" and "b \<le> x0 p \<or> x1 p \<le> a"
  shows "zoom_angle p a = zoom_angle p b"
proof -
  let ?w = "x1 p - x0 p"
  have w: "0 < ?w"
    using assms(1) by simp
  from assms(3) show ?thesis
  proof
    assume "b \<le> x0 p"
    with assms(2) have "a - x0 p \<le> 0" "b - x0 p \<le> 0"
      by simp_all
    with w have "(a - x0 p) / ?w \<le> 0" "(b - x0 p) / ?w \<le> 0"
      by (simp_all add: divide_nonpos_pos)
    then show ?thesis
      unfolding zoom_angle_def by (simp only: clamp_low)
  next
    assume "x1 p \<le> a"
    with assms(2) have "?w \<le> a - x0 p" "?w \<le> b - x0 p"
      by simp_all
    with w have "1 \<le> (a - x0 p) / ?w" "1 \<le> (b - x0 p) / ?w"
      by (simp_all add: le_divide_eq_1_pos)
    then show ?thesis
      unfolding zoom_angle_def by (simp only: clamp_high)
  qed
qed

text \<open>
  Claim C1. After a click on a node \<open>p\<close> of positive angular span, every node \<open>d\<close>
  of the tree has the target whose angles are the clamp of
  \<open>(x - p.x0) / (p.x1 - p.x0)\<close> to 0 and 1, times 2 pi, at the original angles \<open>x\<close> of
  \<open>d\<close>, and whose radial ends are the original ones less the depth of \<open>p\<close>, not below
  0. The target angles lie between 0 and 2 pi, and they are equal when the span of \<open>d\<close>
  lies entirely outside the span of \<open>p\<close>.
\<close>

theorem zoom_target:
  assumes "node_at (v_root st) path = Some p" and "x0 (m_rect p) < x1 (m_rect p)"
    and "d \<in> set (m_descendants (v_root (clicked path st)))"
  shows "target d = Some \<lparr> gx0 = Some (zoom_angle (m_rect p) (x0 (m_rect d))),
                           gx1 = Some (zoom_angle (m_rect p) (x1 (m_rect d))),
                           gy0 = max 0 (y0 (m_rect d) - real (r_depth (m_rect p))),
                           gy1 = max 0 (y1 (m_rect d) - real (r_depth (m_rect p))) \<rparr> \<and>
         0 \<le> zoom_angle (m_rect p) (x0 (m_rect d)) \<and> zoom_angle (m_rect p) (x0 (m_rect d)) \<le> 2 * pi \<and>
         0 \<le> zoom_angle (m_rect p) (x1 (m_rect d)) \<and> zoom_angle (m_rect p) (x1 (m_rect d)) \<le> 2 * pi \<and>
         (x0 (m_rect d) \<le> x1 (m_rect d) \<and>
            (x1 (m_rect d) \<le> x0 (m_rect p) \<or> x1 (m_rect p) \<le> x0 (m_rect d)) \<longrightarrow>
          zoom_angle (m_rect p) (x0 (m_rect d)) = zoom_angle (m_rect p) (x1 (m_rect d)))"
proof -
  let ?p = "m_rect p" and ?d = "m_rect d"
  have span: "0 < x1 ?p - x0 ?p"
    using assms(2) by simp
  have "target d = Some (target_of ?p ?d)"
    using assms(1,3) by (rule clicked_target_of)
  then have 1: "target d = Some \<lparr> gx0 = Some (zoom_angle ?p (x0 ?d)),
      gx1 = Some (zoom_angle ?p (x1 ?d)),
      gy0 = max 0 (y0 ?d - real (r_depth ?p)), gy1 = max 0 (y1 ?d - real (r_depth ?p)) \<rparr>"
    by (simp add: target_of_def clamp_ratio_pos [OF span] zoom_angle_def)
  have 2: "0 \<le> zoom_angle ?p x \<and> zoom_angle ?p x \<le> 2 * pi" for x
    by (rule zoom_angle_bounds)
  have 3: "zoom_angle ?p (x0 ?d) = zoom_angle ?p (x1 ?d)"
    if "x0 ?d \<le> x1 ?d" "x1 ?d \<le> x0 ?p \<or> x1 ?p \<le> x0 ?d"
    using assms(2) that by (rule zoom_angle_outside)
  from 1 2 3 show ?thesis
    by blast
qed

subsection \<open>The partition of the angles\<close>

lemma initial_view_doc_eval:
  "initial_view doc =
     \<lparr> v_root = MNode rect_root (rect_geom rect_root) None None
                  [MNode rect_A (rect_geom rect_A) None None [],
                   MNode rect_B (rect_geom rect_B) None None []],
       v_parent = [], v_focus = [], v_scheduled = 0 \<rparr>"
  by (simp add: initial_view_def layout_doc_eval rect_root_def rect_A_def rect_B_def)

lemma r_descendants_self: "r \<in> set (r_descendants r)"
  by (cases r) simp

lemma dice_props:
  assumes IH: "\<And>c a b cy0 cy1. c \<in> set cs \<Longrightarrow> a \<le> b \<Longrightarrow>
                 pos_ok c a b (position_node dy n a cy0 b cy1 c)"
    and nonneg: "\<forall>c \<in> set cs. 0 \<le> h_value c" and k: "0 \<le> k"
  shows "chain x (dice dy n k x cy0 cy1 cs) (x + k * sum_list (map h_value cs)) \<and>
         map (\<lambda>r. r_value (r_rect r)) (dice dy n k x cy0 cy1 cs) = map h_value cs \<and>
         (\<forall>r \<in> set (dice dy n k x cy0 cy1 cs).
            x1 (r_rect r) - x0 (r_rect r) = r_value (r_rect r) * k \<and>
            (\<forall>m \<in> set (r_descendants r).
               node_inv m \<and> zero_ok m \<and> x \<le> x0 (r_rect m) \<and>
               x1 (r_rect m) \<le> x + k * sum_list (map h_value cs)))"
  using IH nonneg
proof (induction cs arbitrary: x)
  case Nil
  show ?case by simp
next
  case (Cons c cs)
  let ?b = "x + h_value c * k"
  let ?r = "position_node dy n x cy0 ?b cy1 c"
  let ?rest = "dice dy n k ?b cy0 cy1 cs"
  let ?S = "sum_list (map h_value cs)"
  have vc: "0 \<le> h_value c" and vs: "\<forall>c \<in> set cs. 0 \<le> h_value c"
    using Cons.prems(2) by simp_all
  have step: "0 \<le> h_value c * k"
    using vc k by simp
  then have xb: "x \<le> ?b"
    by simp
  have "0 \<le> ?S"
    using vs by (intro sum_list_nonneg) auto
  then have S: "0 \<le> k * ?S"
    using k by simp
  have r: "pos_ok c x ?b ?r"
    using Cons.prems(1) [of c x ?b cy0 cy1] xb by simp
  have zero_c: "h_value c = 0 \<longrightarrow> x = ?b"
    by simp
  have rest: "chain ?b ?rest (?b + k * ?S) \<and>
      map (\<lambda>r. r_value (r_rect r)) ?rest = map h_value cs \<and>
      (\<forall>r \<in> set ?rest.
         x1 (r_rect r) - x0 (r_rect r) = r_value (r_rect r) * k \<and>
         (\<forall>m \<in> set (r_descendants r).
            node_inv m \<and> zero_ok m \<and> ?b \<le> x0 (r_rect m) \<and> x1 (r_rect m) \<le> ?b + k * ?S))"
    using Cons.IH [of ?b] Cons.prems(1) vs by simp
  have e: "?b + k * ?S = x + k * sum_list (map h_value (c # cs))"
    by (simp add: algebra_simps)
  have d: "dice dy n k x cy0 cy1 (c # cs) = ?r # ?rest"
    by simp
  have 1: "chain x (?r # ?rest) (?b + k * ?S)"
    using r rest xb by (simp add: pos_ok_def)
  have 2: "map (\<lambda>r. r_value (r_rect r)) (?r # ?rest) = map h_value (c # cs)"
    using r rest by (simp add: pos_ok_def)
  have 3: "x1 (r_rect ?r) - x0 (r_rect ?r) = r_value (r_rect ?r) * k"
    using r by (simp add: pos_ok_def)
  have 4: "node_inv m \<and> zero_ok m \<and> x \<le> x0 (r_rect m) \<and> x1 (r_rect m) \<le> ?b + k * ?S"
    if "m \<in> set (r_descendants ?r)" for m
  proof -
    from r that have "node_inv m" "x \<le> x0 (r_rect m)" "x1 (r_rect m) \<le> ?b"
      unfolding pos_ok_def by blast+
    moreover from r zero_c that have "zero_ok m"
      unfolding pos_ok_def by blast
    ultimately show ?thesis
      using S by simp
  qed
  have 5: "x1 (r_rect q) - x0 (r_rect q) = r_value (r_rect q) * k \<and>
      (\<forall>m \<in> set (r_descendants q).
         node_inv m \<and> zero_ok m \<and> x \<le> x0 (r_rect m) \<and> x1 (r_rect m) \<le> ?b + k * ?S)"
    if "q \<in> set ?rest" for q
  proof -
    from rest that have a: "x1 (r_rect q) - x0 (r_rect q) = r_value (r_rect q) * k"
      and b: "\<forall>m \<in> set (r_descendants q).
         node_inv m \<and> zero_ok m \<and> ?b \<le> x0 (r_rect m) \<and> x1 (r_rect m) \<le> ?b + k * ?S"
      by blast+
    from b xb have "\<forall>m \<in> set (r_descendants q).
         node_inv m \<and> zero_ok m \<and> x \<le> x0 (r_rect m) \<and> x1 (r_rect m) \<le> ?b + k * ?S"
      by fastforce
    with a show ?thesis
      by blast
  qed
  show ?case
    unfolding d e [symmetric] using 1 2 3 4 5 by (simp only: set_simps ball_simps) blast
qed

lemma position_ok:
  "good h \<Longrightarrow> a \<le> b \<Longrightarrow> pos_ok h a b (position_node dy n a ay0 b ay1 h)"
proof (induction h arbitrary: a b ay0 ay1)
  case (HNode d dep hg v cs)
  let ?k = "if v = 0 then 0 else (b - a) / v"
  let ?cy0 = "dy * (real dep + 1) / real n" and ?cy1 = "dy * (real dep + 2) / real n"
  let ?ks = "dice dy n ?k a ?cy0 ?cy1 cs"
  let ?S = "sum_list (map h_value cs)"
  let ?rect = "\<lparr> r_data = d, r_depth = dep, r_height = hg, r_value = v, x0 = a, x1 = b,
      y0 = (if ay1 < ay0 then (ay0 + ay1) / 2 else ay0),
      y1 = (if ay1 < ay0 then (ay0 + ay1) / 2 else ay1) \<rparr>"
  let ?r = "RNode ?rect ?ks"
  have v: "0 \<le> v" and sum: "cs \<noteq> [] \<Longrightarrow> v = ?S" and kids: "\<forall>c \<in> set cs. good c"
    using HNode.prems(1) by simp_all
  have ab: "a \<le> b"
    by (rule HNode.prems(2))
  have pn: "position_node dy n a ay0 b ay1 (HNode d dep hg v cs) = ?r"
    using ab by (simp add: Let_def)
  have k: "0 \<le> ?k"
    using v ab by simp
  have nonneg: "\<forall>c \<in> set cs. 0 \<le> h_value c"
  proof
    fix c assume "c \<in> set cs"
    with kids have "good c" by blast
    then show "0 \<le> h_value c" by (cases c) simp
  qed
  have IH: "pos_ok c a' b' (position_node dy n a' cy0 b' cy1 c)"
    if "c \<in> set cs" "a' \<le> b'" for c a' b' cy0 cy1
    using HNode.IH [OF that(1)] kids that by blast
  note dp = dice_props [of cs dy n ?k a ?cy0 ?cy1, OF IH nonneg k]
  have S0: "0 \<le> ?S"
    using nonneg by (intro sum_list_nonneg) auto
  have fin: "a + ?k * ?S \<le> b"
  proof (cases "cs = []")
    case True
    with ab show ?thesis by simp
  next
    case False
    with sum have "v = ?S" by simp
    with ab show ?thesis by simp
  qed
  have fac: "dice_factor ?rect = ?k"
    by (simp add: dice_factor_def)
  have vals: "map (\<lambda>r. r_value (r_rect r)) ?ks = map h_value cs"
    using dp by blast
  then have vsum: "sum_list (map (\<lambda>c. r_value (r_rect c)) ?ks) = ?S"
    by simp
  have ne: "?ks \<noteq> [] \<longleftrightarrow> cs \<noteq> []"
    using vals by (metis map_is_Nil_conv)
  have root_inv: "node_inv ?r"
    unfolding node_inv_def rnode.sel fac vsum
    using dp ab v sum ne by (simp only: rect.simps) blast
  have desc: "set (r_descendants ?r) = insert ?r (\<Union>q \<in> set ?ks. set (r_descendants q))"
    by simp
  have 1: "node_inv m \<and> a \<le> x0 (r_rect m) \<and> x1 (r_rect m) \<le> b"
    if "m \<in> set (r_descendants ?r)" for m
  proof (cases "m = ?r")
    case True
    with root_inv ab show ?thesis by simp
  next
    case False
    with that desc obtain q where "q \<in> set ?ks" "m \<in> set (r_descendants q)"
      by auto
    with dp have "node_inv m" "a \<le> x0 (r_rect m)" "x1 (r_rect m) \<le> a + ?k * ?S"
      by blast+
    with fin show ?thesis by simp
  qed
  have 2: "zero_ok m" if "v = 0 \<longrightarrow> a = b" "m \<in> set (r_descendants ?r)" for m
  proof (cases "m = ?r")
    case True
    with that(1) show ?thesis by (simp add: zero_ok_def)
  next
    case False
    with that desc obtain q where "q \<in> set ?ks" "m \<in> set (r_descendants q)"
      by auto
    with dp show ?thesis by blast
  qed
  show ?case
    unfolding pn pos_ok_def using 1 2 by (simp only: rnode.sel rect.simps hnode.sel) blast
qed

lemma resolved_nonneg: "valid_tree t \<Longrightarrow> 0 \<le> resolved t"
proof (induction t)
  case (TreeNode nm v cs)
  then have "\<forall>c \<in> set cs. 0 \<le> resolved c"
    by simp
  then have "0 \<le> sum_list (map resolved cs)"
    by (intro sum_list_nonneg) auto
  moreover have "0 \<le> value_or_zero (TreeNode nm v cs)"
    using TreeNode.prems by (simp add: value_or_zero_def split: option.splits)
  ultimately show ?case
    unfolding resolved_unfold by simp
qed

lemma good_build_at: "valid_tree t \<Longrightarrow> good (build_at d t)"
proof (induction t arbitrary: d)
  case (TreeNode nm v cs)
  let ?cs = "array_sort by_resolved_desc cs"
  have 1: "0 \<le> resolved (TreeNode nm v cs)"
    using TreeNode.prems by (rule resolved_nonneg)
  have "sum_list (map h_value (map (build_at (Suc d)) ?cs)) = sum_list (map resolved cs)"
    by (simp add: comp_def build_at_fields sum_list_array_sort)
  moreover have "cs \<noteq> [] \<Longrightarrow> value_or_zero (TreeNode nm v cs) = 0"
    using TreeNode.prems by (auto simp: value_or_zero_def split: option.splits)
  ultimately have 2: "?cs \<noteq> [] \<Longrightarrow>
      resolved (TreeNode nm v cs) = sum_list (map h_value (map (build_at (Suc d)) ?cs))"
    unfolding resolved_unfold by (simp add: array_sort_Nil_iff)
  have 3: "good c" if "c \<in> set (map (build_at (Suc d)) ?cs)" for c
  proof -
    from that obtain t where "t \<in> set cs" "c = build_at (Suc d) t"
      by (auto simp: set_array_sort)
    with TreeNode show ?thesis
      by simp
  qed
  show ?case
    unfolding build_at_unfold using 1 2 3 by (simp only: good.simps map_is_Nil_conv) blast
qed

lemma layout_position:
  "layout data =
     position_node (real (h_height (build_at 0 data) + 1)) (h_height (build_at 0 data) + 1)
       0 0 (2 * pi)
       (real (h_height (build_at 0 data) + 1) / real (h_height (build_at 0 data) + 1))
       (build_at 0 data)"
  by (simp add: layout_def d3_partition_def build_hierarchy_build_at Let_def)

lemma layout_ok: "valid_tree data \<Longrightarrow> pos_ok (build_at 0 data) 0 (2 * pi) (layout data)"
  unfolding layout_position by (rule position_ok [OF good_build_at]) simp_all

subsection \<open>A click on the arc A of the example document\<close>

lemma clicked_A_eval:
  "clicked [0] (initial_view doc) =
     \<lparr> v_root = MNode rect_root (rect_geom rect_root)
                  (Some \<lparr> gx0 = Some 0, gx1 = Some (2 * pi), gy0 = 0, gy1 = 0 \<rparr>) None
                  [MNode rect_A (rect_geom rect_A) (Some target_A) None [],
                   MNode rect_B (rect_geom rect_B) (Some target_B) None []],
       v_parent = [], v_focus = [0], v_scheduled = Suc 0 \<rparr>"
  by (simp add: initial_view_doc_eval clicked_def target_A_def target_B_def)
     (simp add: target_of_def clamp_ratio_def rect_A_def rect_B_def rect_root_def)

text \<open>
  Claim C4, as stated, fails twice over. The arc A of \<open>doc\<close> is a leaf, so it carries
  no click handler and a click on it leaves the focus at the root. And when \<open>clicked\<close>
  runs for A, the radial band of A's target ends at 1, not at 0.
\<close>

theorem click_A_counterexample:
  "map_option (name \<circ> r_data \<circ> m_rect) (node_at (v_root (initial_view doc)) [0]) = Some ''A'' \<and>
   v_focus (click_arc [0] (initial_view doc)) \<noteq> [0] \<and>
   map_option (map_option gy1 \<circ> target) (node_at (v_root (clicked [0] (initial_view doc))) [0])
     \<noteq> Some (Some 0)"
  by (simp add: clicked_A_eval target_A_def)
     (simp add: initial_view_doc_eval click_arc_def rect_A_def)

text \<open>
  Claim C4, amended. A click on the arc A of \<open>doc\<close> changes nothing, A being a leaf.
  When \<open>clicked\<close> runs for A, A is the focus, its target has the angles 0 to 2 pi and
  the radial band 0 to 1, and that target fails \<open>arcVisible\<close>.
\<close>

theorem click_A:
  "map_option (name \<circ> r_data \<circ> m_rect) (node_at (v_root (initial_view doc)) [0]) = Some ''A'' \<and>
   click_arc [0] (initial_view doc) = initial_view doc \<and>
   v_focus (clicked [0] (initial_view doc)) = [0] \<and>
   map_option target (node_at (v_root (clicked [0] (initial_view doc))) [0])
     = Some (Some \<lparr> gx0 = Some 0, gx1 = Some (2 * pi), gy0 = 0, gy1 = 1 \<rparr>) \<and>
   \<not> arcVisible \<lparr> gx0 = Some 0, gx1 = Some (2 * pi), gy0 = 0, gy1 = 1 \<rparr>"
  by (simp add: clicked_A_eval target_A_def arcVisible_def)
     (simp add: initial_view_doc_eval click_arc_def rect_A_def)

theorem zoom_target_witness:
  "node_at (v_root (initial_view doc)) [0] = Some (MNode rect_A (rect_geom rect_A) None None []) \<and>
   x0 rect_A < x1 rect_A \<and>
   MNode rect_B (rect_geom rect_B) (Some target_B) None []
     \<in> set (m_descendants (v_root (clicked [0] (initial_view doc)))) \<and>
   Some target_B = Some \<lparr> gx0 = Some (zoom_angle rect_A (x0 rect_B)),
                           gx1 = Some (zoom_angle rect_A (x1 rect_B)),
                           gy0 = max 0 (y0 rect_B - real (r_depth rect_A)),
                           gy1 = max 0 (y1 rect_B - real (r_depth rect_A)) \<rparr> \<and>
   zoom_angle rect_A (x0 rect_B) = zoom_angle rect_A (x1 rect_B)"
proof -
  let ?p = "MNode rect_A (rect_geom rect_A) None None []"
  let ?d = "MNode rect_B (rect_geom rect_B) (Some target_B) None []"
  have 1: "node_at (v_root (initial_view doc)) [0] = Some ?p"
    by (simp add: initial_view_doc_eval)
  have 2: "x0 rect_A < x1 rect_A"
    by (simp add: rect_A_def)
  have 3: "?d \<in> set (m_descendants (v_root (clicked [0] (initial_view doc))))"
    by (simp add: clicked_A_eval)
  have 4: "x0 rect_B \<le> x1 rect_B \<and> (x1 rect_B \<le> x0 rect_A \<or> x1 rect_A \<le> x0 rect_B)"
    by (simp add: rect_A_def rect_B_def)
  have "x0 (m_rect ?p) < x1 (m_rect ?p)"
    using 2 by simp
  note z = zoom_target [OF 1 this 3]
  from z have a: "Some target_B = Some \<lparr> gx0 = Some (zoom_angle rect_A (x0 rect_B)),
      gx1 = Some (zoom_angle rect_A (x1 rect_B)),
      gy0 = max 0 (y0 rect_B - real (r_depth rect_A)),
      gy1 = max 0 (y1 rect_B - real (r_depth rect_A)) \<rparr>"
    by (simp only: mnode.sel)
  from z 4 have b: "zoom_angle rect_A (x0 rect_B) = zoom_angle rect_A (x1 rect_B)"
    by (simp only: mnode.sel)
  from 1 2 3 a b show ?thesis
    by blast
qed

subsection \<open>Zooming in and out again\<close>

lemma dice_y:
  assumes IH: "\<And>c a b ay0 ay1. c \<in> set cs \<Longrightarrow> 0 \<le> ay0 \<Longrightarrow> 0 \<le> ay1 \<Longrightarrow>
      \<forall>m \<in> set (r_descendants (position_node dy n a ay0 b ay1 c)).
        0 \<le> y0 (r_rect m) \<and> 0 \<le> y1 (r_rect m)"
    and "0 \<le> cy0" and "0 \<le> cy1"
  shows "\<forall>r \<in> set (dice dy n k x cy0 cy1 cs). \<forall>m \<in> set (r_descendants r).
           0 \<le> y0 (r_rect m) \<and> 0 \<le> y1 (r_rect m)"
  using assms
proof (induction cs arbitrary: x)
  case Nil
  show ?case by simp
next
  case (Cons c cs)
  have 1: "\<forall>m \<in> set (r_descendants (position_node dy n x cy0 (x + h_value c * k) cy1 c)).
        0 \<le> y0 (r_rect m) \<and> 0 \<le> y1 (r_rect m)"
    using Cons.prems(1) [of c cy0 cy1 x "x + h_value c * k"] Cons.prems(2,3) by simp
  have 2: "\<forall>r \<in> set (dice dy n k (x + h_value c * k) cy0 cy1 cs). \<forall>m \<in> set (r_descendants r).
           0 \<le> y0 (r_rect m) \<and> 0 \<le> y1 (r_rect m)"
    by (rule Cons.IH [OF _ Cons.prems(2,3)], rule Cons.prems(1)) simp_all
  from 1 2 show ?case
    by simp
qed

lemma position_y:
  "0 \<le> dy \<Longrightarrow> 0 \<le> ay0 \<Longrightarrow> 0 \<le> ay1 \<Longrightarrow>
   \<forall>m \<in> set (r_descendants (position_node dy n a ay0 b ay1 h)).
     0 \<le> y0 (r_rect m) \<and> 0 \<le> y1 (r_rect m)"
proof (induction h arbitrary: a b ay0 ay1)
  case (HNode d dep hg v cs)
  let ?k = "if v = 0 then 0 else (b - a) / v"
  let ?cy0 = "dy * (real dep + 1) / real n" and ?cy1 = "dy * (real dep + 2) / real n"
  have c0: "0 \<le> ?cy0" and c1: "0 \<le> ?cy1"
    using HNode.prems(1) by simp_all
  have IH: "\<forall>m \<in> set (r_descendants (position_node dy n a' cy0 b' cy1 c)).
        0 \<le> y0 (r_rect m) \<and> 0 \<le> y1 (r_rect m)"
    if "c \<in> set cs" "0 \<le> cy0" "0 \<le> cy1" for c a' b' cy0 cy1
    using HNode.IH [OF that(1) HNode.prems(1) that(2,3)] .
  note dy = dice_y [of cs dy n, OF IH c0 c1, of ?k a]
  show ?case
    using dy HNode.prems(2,3) by (simp add: Let_def)
qed

lemma layout_y:
  assumes "m \<in> set (r_descendants (layout data))"
  shows "0 \<le> y0 (r_rect m) \<and> 0 \<le> y1 (r_rect m)"
proof -
  have "\<forall>m \<in> set (r_descendants (layout data)). 0 \<le> y0 (r_rect m) \<and> 0 \<le> y1 (r_rect m)"
    unfolding layout_position by (rule position_y) simp_all
  with assms show ?thesis
    by blast
qed

lemma layout_x:
  assumes "valid_tree data" and "m \<in> set (r_descendants (layout data))"
  shows "0 \<le> x0 (r_rect m) \<and> x0 (r_rect m) \<le> 2 * pi \<and> 0 \<le> x1 (r_rect m) \<and> x1 (r_rect m) \<le> 2 * pi"
proof -
  from layout_ok [OF assms(1)] assms(2)
  have "node_inv m" "0 \<le> x0 (r_rect m)" "x1 (r_rect m) \<le> 2 * pi"
    unfolding pos_ok_def by blast+
  then show ?thesis
    by (simp add: node_inv_def)
qed

lemma position_node_rect:
  "a \<le> b \<Longrightarrow>
     x0 (r_rect (position_node dy n a ay0 b ay1 h)) = a \<and>
     x1 (r_rect (position_node dy n a ay0 b ay1 h)) = b \<and>
     r_depth (r_rect (position_node dy n a ay0 b ay1 h)) = h_depth h"
  by (cases h) (simp add: Let_def)

lemma layout_root_rect:
  "x0 (r_rect (layout data)) = 0 \<and> x1 (r_rect (layout data)) = 2 * pi \<and>
   r_depth (r_rect (layout data)) = 0"
proof -
  have "(0::real) \<le> 2 * pi"
    by simp
  from position_node_rect [OF this] show ?thesis
    unfolding layout_position by (simp only: build_at_fields(3))
qed

lemma target_of_root:
  assumes "x0 p = 0" "x1 p = 2 * pi" "r_depth p = 0"
    and "0 \<le> x0 r" "x0 r \<le> 2 * pi" "0 \<le> x1 r" "x1 r \<le> 2 * pi" "0 \<le> y0 r" "0 \<le> y1 r"
  shows "target_of p r = rect_geom r"
proof -
  have c: "clamp_ratio x (2 * pi) = Some (x / (2 * pi))" if "0 \<le> x" "x \<le> 2 * pi" for x
    using that by (simp add: clamp_ratio_def max_def min_def)
  show ?thesis
    using assms by (simp add: target_of_def rect_geom_def c)
qed

lemma layout_deep_doc:
  "layout deep_doc =
     RNode (rect_deep 0 deep_doc) [RNode (rect_deep 1 doc_A) [RNode (rect_deep 2 doc_B)
       [RNode (rect_deep 3 doc_C) []]]]"
  by (simp add: deep_doc_def layout_def d3_partition_def build_hierarchy_def hierarchy_def
      value_or_zero_def array_sort_def by_value_desc_def Let_def rect_deep_def doc_A_def
      doc_B_def doc_C_def numeral_3_eq_3)

lemma node_at_each_target:
  "node_at (each_target pr n) q = map_option (each_target pr) (node_at n q)"
  by (induction q arbitrary: n) (simp_all add: each_target_fields)

lemma node_at_start_tween:
  "node_at (start_tween n) q = map_option start_tween (node_at n q)"
  by (induction q arbitrary: n) (simp_all add: start_tween_fields)

lemma node_at_prefix: "node_at n (q @ r) = Some p \<Longrightarrow> \<exists>f. node_at n q = Some f"
  by (induction q arbitrary: n) (auto split: if_splits)

lemma node_at_clicked:
  assumes "node_at (v_root st) path = Some p" and "node_at (v_root st) q = Some n"
  shows "\<exists>n'. node_at (v_root (clicked path st)) q = Some n' \<and> m_rect n' = m_rect n"
  by (simp add: clicked_root(1) [OF assms(1)] node_at_each_target assms(2) each_target_fields)

lemma clicked_targets_rect:
  assumes "node_at (v_root st) path = Some p"
  shows "map target (m_descendants (v_root (clicked path st)))
       = map (\<lambda>r. Some (target_of (m_rect p) r)) (map m_rect (m_descendants (v_root st)))"
  unfolding clicked_targets(1) [OF assms] by (simp add: comp_def)

lemma descendants_init_current:
  "map m_rect (m_descendants (init_current r)) = map r_rect (r_descendants r)"
  "map current (m_descendants (init_current r)) = map (rect_geom \<circ> r_rect) (r_descendants r)"
  "map target (m_descendants (init_current r)) = map (\<lambda>_. None) (r_descendants r)"
proof (induction r)
  case (RNode r cs)
  {
    case 1
    have "map (\<lambda>x. map m_rect (m_descendants (init_current x))) cs
        = map (\<lambda>x. map r_rect (r_descendants x)) cs"
      using RNode.IH(1) by (intro map_cong) auto
    then have "concat (map (\<lambda>x. map m_rect (m_descendants (init_current x))) cs)
        = concat (map (\<lambda>x. map r_rect (r_descendants x)) cs)"
      by (rule arg_cong)
    then show ?case
      by (simp add: map_concat comp_def)
  next
    case 2
    have "map (\<lambda>x. map current (m_descendants (init_current x))) cs
        = map (\<lambda>x. map (rect_geom \<circ> r_rect) (r_descendants x)) cs"
      using RNode.IH(2) by (intro map_cong) auto
    then have "concat (map (\<lambda>x. map current (m_descendants (init_current x))) cs)
        = concat (map (\<lambda>x. map (rect_geom \<circ> r_rect) (r_descendants x)) cs)"
      by (rule arg_cong)
    then show ?case
      by (simp add: map_concat comp_def)
  next
    case 3
    have "map (\<lambda>x. map target (m_descendants (init_current x))) cs
        = map (\<lambda>x. map (\<lambda>_. None) (r_descendants x)) cs"
      using RNode.IH(3) by (intro map_cong) auto
    then have "concat (map (\<lambda>x. map target (m_descendants (init_current x))) cs)
        = concat (map (\<lambda>x. map (\<lambda>_. None) (r_descendants x)) cs)"
      by (rule arg_cong)
    then show ?case
      by (simp add: map_concat comp_def)
  }
qed

lemma initial_view_nodes:
  "map m_rect (m_descendants (v_root (initial_view data))) = map r_rect (r_descendants (layout data))"
  "map target (m_descendants (v_root (initial_view data))) = map (\<lambda>_. None) (r_descendants (layout data))"
  "map current (m_descendants (v_root (initial_view data)))
     = map (rect_geom \<circ> r_rect) (r_descendants (layout data))"
  "m_rect (v_root (initial_view data)) = r_rect (layout data)"
  "v_focus (initial_view data) = []" "v_scheduled (initial_view data) = 0"
  by (simp_all add: initial_view_def descendants_init_current, cases "layout data", simp)

lemma root_target_is_layout:
  assumes "valid_tree data" and "x0 p = 0" "x1 p = 2 * pi" "r_depth p = 0"
  shows "map (\<lambda>r. Some (target_of p r)) (map r_rect (r_descendants (layout data)))
       = map (\<lambda>m. Some (rect_geom (r_rect m))) (r_descendants (layout data))"
proof -
  have "target_of p (r_rect m) = rect_geom (r_rect m)" if "m \<in> set (r_descendants (layout data))" for m
    using layout_x [OF assms(1) that] layout_y [OF that] assms(2-4)
    by (intro target_of_root) simp_all
  then show ?thesis
    by simp
qed

text \<open>
  Claim C2, amended. Let \<open>p\<close> be a child of the view's focus that has children, in the
  initial view of a valid document or in a view whose targets were computed for its focus. A click
  on \<open>p\<close> followed by a click on the centre brings the focus back, and gives every node
  as target the geometry it had before the first click. Over the reals the equality is
  exact.
\<close>

theorem zoom_round_trip:
  assumes "node_at (v_root st) (v_focus st @ [i]) = Some p"
    and "children p \<noteq> []"
    and "st = initial_view data \<and> valid_tree data \<or> zoomed_on st"
  shows "v_focus (click_center (click_arc (v_focus st @ [i]) st)) = v_focus st \<and>
         map target (m_descendants (v_root (click_center (click_arc (v_focus st @ [i]) st))))
           = map (\<lambda>d. Some (geometry d)) (m_descendants (v_root st))"
proof -
  let ?path = "v_focus st @ [i]"
  let ?s1 = "clicked ?path st"
  have arc: "click_arc ?path st = ?s1"
    using assms(1,2) by (simp add: click_arc_def)
  have par: "v_parent ?s1 = v_focus st"
    using clicked_root(2) [OF assms(1)] by simp
  then have cen: "click_center ?s1 = clicked (v_focus st) ?s1"
    by (simp add: click_center_def)
  from assms(1) obtain f where f: "node_at (v_root st) (v_focus st) = Some f"
    using node_at_prefix by blast
  from node_at_clicked [OF assms(1) f] obtain f'
    where f': "node_at (v_root ?s1) (v_focus st) = Some f'" and rect: "m_rect f' = m_rect f"
    by blast
  let ?s2 = "clicked (v_focus st) ?s1"
  have foc: "v_focus ?s2 = v_focus st"
    by (rule clicked_root(3) [OF f'])
  have tg: "map target (m_descendants (v_root ?s2))
      = map (\<lambda>r. Some (target_of (m_rect f) r)) (map m_rect (m_descendants (v_root st)))"
    unfolding clicked_targets_rect [OF f'] clicked_targets(2) [OF assms(1)] rect ..
  have "map (\<lambda>r. Some (target_of (m_rect f) r)) (map m_rect (m_descendants (v_root st)))
      = map (\<lambda>d. Some (geometry d)) (m_descendants (v_root st))"
    using assms(3)
  proof
    assume init: "st = initial_view data \<and> valid_tree data"
    then have root: "f = v_root st"
      using f by (simp add: initial_view_nodes)
    have r: "x0 (m_rect f) = 0" "x1 (m_rect f) = 2 * pi" "r_depth (m_rect f) = 0"
      using init layout_root_rect [of data] by (simp_all add: root initial_view_nodes)
    have "map (\<lambda>d. Some (geometry d)) (m_descendants (v_root st))
        = map (\<lambda>m. Some (rect_geom (r_rect m))) (r_descendants (layout data))"
    proof (rule nth_equalityI)
      show "length (map (\<lambda>d. Some (geometry d)) (m_descendants (v_root st)))
          = length (map (\<lambda>m. Some (rect_geom (r_rect m))) (r_descendants (layout data)))"
        using init initial_view_nodes(1) [of data] by (metis length_map)
    next
      fix k assume "k < length (map (\<lambda>d. Some (geometry d)) (m_descendants (v_root st)))"
      then have k: "k < length (m_descendants (v_root st))"
        by simp
      then have k': "k < length (r_descendants (layout data))"
        using init initial_view_nodes(1) [of data] by (metis length_map)
      have "target (m_descendants (v_root st) ! k) = map target (m_descendants (v_root st)) ! k"
        using k by simp
      also have "\<dots> = None"
        using init k' by (simp add: initial_view_nodes)
      finally have t: "target (m_descendants (v_root st) ! k) = None" .
      have "current (m_descendants (v_root st) ! k) = map current (m_descendants (v_root st)) ! k"
        using k by simp
      also have "\<dots> = rect_geom (r_rect (r_descendants (layout data) ! k))"
        using init k' by (simp add: initial_view_nodes)
      finally show "map (\<lambda>d. Some (geometry d)) (m_descendants (v_root st)) ! k
          = map (\<lambda>m. Some (rect_geom (r_rect m))) (r_descendants (layout data)) ! k"
        using k k' t by (simp add: geometry_def)
    qed
    moreover have "map m_rect (m_descendants (v_root st)) = map r_rect (r_descendants (layout data))"
      using init by (simp add: initial_view_nodes)
    ultimately show ?thesis
      using root_target_is_layout [OF _ r, of data] init by simp
  next
    assume "zoomed_on st"
    with f have "\<forall>d \<in> set (m_descendants (v_root st)). target d = Some (target_of (m_rect f) (m_rect d))"
      by (simp add: zoomed_on_def)
    then show ?thesis
      by (simp add: geometry_def)
  qed
  with tg foc show ?thesis
    unfolding arc cen by simp
qed

lemma initial_view_deep_doc:
  "initial_view deep_doc =
     \<lparr> v_root = mnode_deep 0 deep_doc [mnode_deep 1 doc_A [mnode_deep 2 doc_B [mnode_deep 3 doc_C []]]],
       v_parent = [], v_focus = [], v_scheduled = 0 \<rparr>"
  by (simp add: initial_view_def layout_deep_doc mnode_deep_def)

lemmas deep_eval =
  initial_view_deep_doc click_arc_def click_center_def clicked_def tick_def start_def
  mnode_deep_def arcVisible_def rect_geom_def rect_deep_def on_arcs_def target_of_def
  clamp_ratio_def geometry_def interpolate_def interpolate_num_def

text \<open>
  Claim C2, as stated, fails. In the initial view of \<open>deep_doc\<close> the arc B, a grandchild
  of the root, has children and is visible (\<open>arcVisible\<close> holds of its \<open>current\<close>, so
  that line 66 lets it receive clicks), so it takes a click. The centre then leads to
  B's parent A, not back to the root, and A's target is not the geometry A had before.
\<close>

theorem zoom_round_trip_counterexample:
  "valid_tree deep_doc \<and>
   map_option (\<lambda>p. children p \<noteq> [] \<and> arcVisible (current p))
     (node_at (v_root (initial_view deep_doc)) [0, 0]) = Some True \<and>
   v_focus (click_center (click_arc [0, 0] (initial_view deep_doc)))
     \<noteq> v_focus (initial_view deep_doc) \<and>
   map_option target (node_at (v_root (click_center (click_arc [0, 0] (initial_view deep_doc)))) [0])
     \<noteq> map_option (\<lambda>d. Some (geometry d)) (node_at (v_root (initial_view deep_doc)) [0])"
proof -
  have "valid_tree deep_doc"
    by (simp add: deep_doc_def)
  then show ?thesis
    by (simp add: deep_eval)
qed

lemma zoomed_on_clicked:
  assumes "node_at (v_root st) path = Some p"
  shows "zoomed_on (clicked path st)"
proof -
  from node_at_clicked [OF assms assms] obtain p'
    where p': "node_at (v_root (clicked path st)) path = Some p'" and r: "m_rect p' = m_rect p"
    by blast
  have "target d = Some (target_of (m_rect p') (m_rect d))"
    if "d \<in> set (m_descendants (v_root (clicked path st)))" for d
    using clicked_target_of [OF assms that] by (simp add: r)
  then show ?thesis
    by (simp add: zoomed_on_def clicked_root(3) [OF assms] p')
qed

theorem zoom_round_trip_witness:
  "node_at (v_root (initial_view deep_doc)) (v_focus (initial_view deep_doc) @ [0])
     = Some (mnode_deep 1 doc_A [mnode_deep 2 doc_B [mnode_deep 3 doc_C []]]) \<and>
   valid_tree deep_doc \<and>
   v_focus (click_center (click_arc [0] (initial_view deep_doc))) = [] \<and>
   map target (m_descendants (v_root (click_center (click_arc [0] (initial_view deep_doc)))))
     = map (\<lambda>d. Some (geometry d)) (m_descendants (v_root (initial_view deep_doc))) \<and>
   zoomed_on (clicked [0] (initial_view deep_doc)) \<and>
   v_focus (click_center (click_arc [0, 0] (clicked [0] (initial_view deep_doc)))) = [0] \<and>
   map target (m_descendants
       (v_root (click_center (click_arc [0, 0] (clicked [0] (initial_view deep_doc))))))
     = map (\<lambda>d. Some (geometry d)) (m_descendants (v_root (clicked [0] (initial_view deep_doc))))"
proof -
  let ?st = "initial_view deep_doc"
  let ?p = "mnode_deep 1 doc_A [mnode_deep 2 doc_B [mnode_deep 3 doc_C []]]"
  have f: "v_focus ?st = []"
    by (simp add: initial_view_deep_doc)
  have 1: "node_at (v_root ?st) (v_focus ?st @ [0]) = Some ?p"
    by (simp add: initial_view_deep_doc mnode_deep_def)
  have 2: "children ?p \<noteq> []"
    by (simp add: mnode_deep_def)
  have v: "valid_tree deep_doc"
    by (simp add: deep_doc_def)
  then have 4: "?st = initial_view deep_doc \<and> valid_tree deep_doc \<or> zoomed_on ?st"
    by simp
  let ?s1 = "clicked [0] ?st"
  have A: "node_at (v_root ?st) [0] = Some ?p"
    using 1 by (simp add: f)
  have z: "zoomed_on ?s1"
    using A by (rule zoomed_on_clicked)
  have f1: "v_focus ?s1 = [0]"
    using A by (rule clicked_root(3))
  obtain q where 5: "node_at (v_root ?s1) (v_focus ?s1 @ [0]) = Some q"
    and 6: "children q \<noteq> []"
    by (simp add: deep_eval)
  from z have 8: "?s1 = initial_view deep_doc \<and> valid_tree deep_doc \<or> zoomed_on ?s1"
    by simp
  from zoom_round_trip [OF 1 2 4] zoom_round_trip [OF 5 6 8] 1 v z show ?thesis
    by (simp add: f f1)
qed

subsection \<open>A click during a transition\<close>

lemma arcs_run_tween: "arcs (on_arcs (run_tween t) n) = map (run_tween t) (arcs n)"
  by (rule arcs_on_arcs) (rule descendants_run_tween)

text \<open>
  Claim C8, as stated, fails in its first half. When the centre is clicked in
  \<open>mid_flight\<close>, the new target of A is not the one computed from A's interpolated
  state: the band of A is from 1/2 to 3/2 then, and the target is still computed from A's
  layout rectangle.
\<close>

theorem retarget_counterexample:
  "map_option target (node_at (v_root (click_center mid_flight)) [0])
     \<noteq> map_option (\<lambda>d. Some (target_from_current (m_rect (v_root mid_flight)) (current d)))
          (node_at (v_root mid_flight) [0])"
  by (simp add: mid_flight_def deep_eval target_from_current_def)

lemma arcs_start_tween: "arcs (on_arcs start_tween n) = map start_tween (arcs n)"
  by (rule arcs_on_arcs) (rule descendants_start_tween)

lemma tick_clicked:
  assumes "node_at (v_root st) path = Some p"
  shows "arcs (v_root (tick t (clicked path st)))
       = map (each_target (m_rect p)) (arcs (v_root (tick t st)))"
proof -
  have c: "run_tween t (each_target pr d) = each_target pr (run_tween t d)" for pr d
    by (induction d) simp
  show ?thesis
    by (simp add: tick_def clicked_root(1) [OF assms] arcs_run_tween arcs_each_target c)
qed

lemma frame_clicked:
  assumes "node_at (v_root st) path = Some p" and "v_scheduled st = 0"
  shows "frame t e (clicked path st) = tick (e 0) (start (tick t (clicked path st)))"
  using assms by (simp add: frame_def tick_def clicked_def)

text \<open>
  Claim C8, amended. A click on \<open>p\<close>, in any view and so in mid-transition too, gives
  every node the target computed from the node's layout rectangle and that of \<open>p\<close>,
  whatever the interpolated state is, and touches neither the running interpolators nor any
  \<open>current\<close>. The click only schedules the new transition. At the next frame the
  superseded transition has one more tick, with some eased time \<open>t\<close>, and then the new
  transition starts: the new interpolator of every arc starts at the \<open>current\<close> which that
  tick has left, the in-flight value of that frame and not of the moment of the click, and
  ends at the new target. If no other click waits to be started, the first tick of the new
  transition, at the same frame with the eased time \<open>e 0\<close>, sets \<open>current\<close> from that
  interpolator.
\<close>

theorem retarget:
  assumes "node_at (v_root st) path = Some p" and "v_scheduled st = 0"
  shows "map target (m_descendants (v_root (clicked path st)))
           = map (\<lambda>d. Some (target_of (m_rect p) (m_rect d))) (m_descendants (v_root st)) \<and>
         map tween (m_descendants (v_root (clicked path st)))
           = map tween (m_descendants (v_root st)) \<and>
         map current (m_descendants (v_root (clicked path st)))
           = map current (m_descendants (v_root st)) \<and>
         map tween (arcs (v_root (start (tick t (clicked path st)))))
           = map (\<lambda>d. Some (current d, target_of (m_rect p) (m_rect d)))
               (arcs (v_root (tick t st))) \<and>
         map current (arcs (v_root (frame t e (clicked path st))))
           = map (\<lambda>d. interpolate (current d) (target_of (m_rect p) (m_rect d)) (e 0))
               (arcs (v_root (tick t st)))"
proof -
  let ?c = "clicked path st"
  have tw: "map tween (m_descendants (v_root ?c)) = map tween (m_descendants (v_root st))"
    unfolding clicked_root(1) [OF assms(1)] descendants_each_target
    by (simp add: each_target_fields comp_def)
  have s: "v_scheduled (tick t ?c) \<noteq> 0"
    using clicked_root(4) [OF assms(1)] by (simp add: tick_def)
  have a: "arcs (v_root (start (tick t ?c)))
      = map start_tween (map (each_target (m_rect p)) (arcs (v_root (tick t st))))"
    using s by (simp add: start_def arcs_start_tween tick_clicked [OF assms(1)])
  have 1: "map tween (arcs (v_root (start (tick t ?c))))
      = map (\<lambda>d. Some (current d, target_of (m_rect p) (m_rect d))) (arcs (v_root (tick t st)))"
    unfolding a by (simp add: start_tween_fields each_target_fields)
  have "map current (arcs (v_root (frame t e ?c)))
      = map (current \<circ> run_tween (e 0)) (arcs (v_root (start (tick t ?c))))"
    unfolding frame_clicked [OF assms] by (simp add: tick_def arcs_run_tween)
  also have "\<dots> = map (\<lambda>d. interpolate (current d) (target_of (m_rect p) (m_rect d)) (e 0))
      (arcs (v_root (tick t st)))"
    unfolding a by (simp add: run_tween_fields start_tween_fields each_target_fields)
  finally show ?thesis
    using clicked_targets(1,3) [OF assms(1)] tw 1 by simp
qed

text \<open>
  The run of \<open>deep_doc\<close>: A is clicked, and half-way through that transition, when the
  radial band of A is from 1/2 to 3/2, the centre is clicked. If the transition to A ends
  at the next frame, the new interpolation of A starts at the superseded target, the band
  from 0 to 1, and half-way it is at the band from 1/2 to 3/2 again.
\<close>

theorem retarget_witness:
  "node_at (v_root mid_flight) [] = Some (v_root mid_flight) \<and> v_scheduled mid_flight = 0 \<and>
   map (\<lambda>d. (gy0 (current d), gy1 (current d))) (arcs (v_root mid_flight))
     = [(1 / 2, 3 / 2), (3 / 2, 5 / 2), (5 / 2, 7 / 2)] \<and>
   map (map_option (\<lambda>(a, b). ((gy0 a, gy1 a), (gy0 b, gy1 b))))
       (map tween (arcs (v_root (start (tick 1 (clicked [] mid_flight))))))
     = [Some ((0, 1), (1, 2)), Some ((1, 2), (2, 3)), Some ((2, 3), (3, 4))] \<and>
   map (\<lambda>g. (gy0 g, gy1 g))
       (map current (arcs (v_root (frame 1 (\<lambda>k. 1 / 2) (clicked [] mid_flight)))))
     = [(1 / 2, 3 / 2), (3 / 2, 5 / 2), (5 / 2, 7 / 2)]"
proof -
  have 1: "node_at (v_root mid_flight) [] = Some (v_root mid_flight)"
    by simp
  have 2: "v_scheduled mid_flight = 0"
    by (simp add: mid_flight_def deep_eval)
  have 3: "map (\<lambda>d. (gy0 (current d), gy1 (current d))) (arcs (v_root mid_flight))
      = [(1 / 2, 3 / 2), (3 / 2, 5 / 2), (5 / 2, 7 / 2)]"
    by (simp add: mid_flight_def deep_eval arcs_def)
  have 4: "map (\<lambda>d. Some ((gy0 (current d), gy1 (current d)),
        (gy0 (target_of (m_rect (v_root mid_flight)) (m_rect d)),
         gy1 (target_of (m_rect (v_root mid_flight)) (m_rect d)))))
      (arcs (v_root (tick 1 mid_flight)))
      = [Some ((0, 1), (1, 2)), Some ((1, 2), (2, 3)), Some ((2, 3), (3, 4))]"
    by (simp add: mid_flight_def deep_eval arcs_def)
  have 5: "map (\<lambda>d. (gy0 (interpolate (current d)
          (target_of (m_rect (v_root mid_flight)) (m_rect d)) (1 / 2)),
        gy1 (interpolate (current d)
          (target_of (m_rect (v_root mid_flight)) (m_rect d)) (1 / 2))))
      (arcs (v_root (tick 1 mid_flight)))
      = [(1 / 2, 3 / 2), (3 / 2, 5 / 2), (5 / 2, 7 / 2)]"
    by (simp add: mid_flight_def deep_eval arcs_def)
  from retarget [OF 1 2, of 1 "\<lambda>k. 1 / 2"] 1 2 3 4 5 show ?thesis
    by (simp add: comp_def)
qed

subsection \<open>Rounding to the nearest double\<close>

lemma round_even_of_int [simp]: "round_even (of_int n) = n"
  by (simp add: round_even_def)

lemma round_even_bounds: "of_int (round_even x) \<le> x + 1 / 2" "x - 1 / 2 \<le> of_int (round_even x)"
  by (auto simp: round_even_def Let_def) linarith+

lemma round_even_floor: "\<lfloor>x\<rfloor> \<le> round_even x" "round_even x \<le> \<lfloor>x\<rfloor> + 1"
  by (auto simp: round_even_def Let_def)

lemma round_even_mono: "x \<le> y \<Longrightarrow> round_even x \<le> round_even y"
proof -
  assume xy: "x \<le> y"
  then have f: "\<lfloor>x\<rfloor> \<le> \<lfloor>y\<rfloor>"
    by (rule floor_mono)
  show ?thesis
  proof (cases "\<lfloor>x\<rfloor> = \<lfloor>y\<rfloor>")
    case True
    with xy show ?thesis
      by (auto simp: round_even_def Let_def)
  next
    case False
    with f have "\<lfloor>x\<rfloor> + 1 \<le> \<lfloor>y\<rfloor>"
      by simp
    with round_even_floor(2) [of x] round_even_floor(1) [of y] show ?thesis
      by linarith
  qed
qed

lemma powr2_int: "(2::real) powr (real_of_int k) = 2 powi k" "(2::real) powr (real_of_int k + 1) = 2 powi (k + 1)"
  using powr_real_of_int' [of "2::real" k] powr_real_of_int' [of "2::real" "k + 1"] by simp_all

lemma binade_bounds:
  assumes "x \<noteq> 0"
  shows "2 powi binade x \<le> \<bar>x\<bar>" "\<bar>x\<bar> < 2 powi (binade x + 1)"
proof -
  have "0 < \<bar>x\<bar>" using assms by simp
  from floor_log_eq_powr_iff [OF this, of 2 "binade x"]
  show "2 powi binade x \<le> \<bar>x\<bar>" "\<bar>x\<bar> < 2 powi (binade x + 1)"
    by (simp_all add: binade_def powr2_int)
qed

lemma binade_eq:
  assumes "2 powi k \<le> \<bar>x\<bar>" "\<bar>x\<bar> < 2 powi (k + 1)"
  shows "binade x = k"
proof -
  have "0 < (2::real) powi k" by simp
  with assms(1) have "0 < \<bar>x\<bar>" by linarith
  from floor_log_eq_powr_iff [OF this, of 2 k] assms show ?thesis
    by (simp add: binade_def powr2_int)
qed

lemma binade_mono: "x \<noteq> 0 \<Longrightarrow> \<bar>x\<bar> \<le> \<bar>y\<bar> \<Longrightarrow> binade x \<le> binade y"
  by (simp add: binade_def floor_mono)

lemma quantum_pos [simp]: "0 < quantum x" "0 \<le> quantum x" "quantum x \<noteq> 0"
  by (simp_all add: quantum_def)

lemma round_even_0 [simp]: "round_even 0 = 0"
  using round_even_of_int [of 0] by simp

lemma to_double_rnd:
  "to_double x = (if x = 0 then Fin 0 else if 2 ^ 1024 \<le> \<bar>rnd x\<bar> then (if 0 < x then PInf else NInf) else Fin (rnd x))"
  by (simp add: to_double_def rnd_def Let_def)

lemma quantum_eq: "quantum x = 2 powi (max (binade x) (- 1022)) / 2 ^ 52"
  by (simp add: quantum_def power_int_diff)

lemma scaled_less:
  assumes "0 < x"
  shows "x / quantum x < 2 ^ 53"
proof -
  have "x < 2 powi (binade x + 1)"
    using binade_bounds(2) [of x] assms by simp
  also have "\<dots> \<le> 2 powi (max (binade x) (- 1022) + 1)"
    by (intro power_int_increasing) simp_all
  also have "\<dots> = 2 ^ 53 * quantum x"
    by (simp add: quantum_eq power_int_add)
  finally show ?thesis
    by (simp add: pos_divide_less_eq)
qed

lemma scaled_ge:
  assumes "0 < x" "- 1022 \<le> binade x"
  shows "2 ^ 52 \<le> x / quantum x"
proof -
  have "2 ^ 52 * quantum x = 2 powi binade x"
    using assms(2) by (simp add: quantum_eq max_def)
  also have "\<dots> \<le> x"
    using binade_bounds(1) [of x] assms by simp
  finally show ?thesis
    by (simp add: pos_le_divide_eq)
qed

lemma round_even_le: "x \<le> of_int n \<Longrightarrow> round_even x \<le> n"
  using round_even_mono [of x "of_int n"] by simp

lemma round_even_ge: "of_int n \<le> x \<Longrightarrow> n \<le> round_even x"
  using round_even_mono [of "of_int n" x] by simp

lemma rnd_nonneg: "0 \<le> x \<Longrightarrow> 0 \<le> rnd x"
proof -
  assume "0 \<le> x"
  then have "of_int 0 \<le> x / quantum x"
    by simp
  then have "0 \<le> round_even (x / quantum x)"
    by (rule round_even_ge)
  then show ?thesis
    by (simp add: rnd_def)
qed

lemma rnd_upper:
  assumes "0 < x"
  shows "rnd x \<le> 2 powi (max (binade x) (- 1022) + 1)"
proof -
  have "x / quantum x \<le> of_int (2 ^ 53)"
    using scaled_less [OF assms] by simp
  then have "round_even (x / quantum x) \<le> 2 ^ 53"
    by (rule round_even_le)
  then have "real_of_int (round_even (x / quantum x)) \<le> 2 ^ 53"
    by (metis of_int_le_iff of_int_numeral of_int_power)
  then have "rnd x \<le> 2 ^ 53 * quantum x"
    by (simp add: rnd_def)
  also have "\<dots> = 2 powi (max (binade x) (- 1022) + 1)"
    by (simp add: quantum_eq power_int_add)
  finally show ?thesis .
qed

lemma rnd_lower:
  assumes "0 < x" "- 1022 \<le> binade x"
  shows "2 powi binade x \<le> rnd x"
proof -
  have "of_int (2 ^ 52) \<le> x / quantum x"
    using scaled_ge [OF assms] by simp
  then have "2 ^ 52 \<le> round_even (x / quantum x)"
    by (rule round_even_ge)
  then have "2 ^ 52 \<le> real_of_int (round_even (x / quantum x))"
    by (metis of_int_le_iff of_int_numeral of_int_power)
  then have "2 ^ 52 * quantum x \<le> rnd x"
    by (simp add: rnd_def)
  moreover have "2 ^ 52 * quantum x = 2 powi binade x"
    using assms(2) by (simp add: quantum_eq max_def)
  ultimately show ?thesis
    by simp
qed

lemma rnd_mono:
  assumes "0 < x" "x \<le> y"
  shows "rnd x \<le> rnd y"
proof -
  have y: "0 < y" using assms by simp
  have b: "binade x \<le> binade y"
    using assms by (intro binade_mono) simp_all
  show ?thesis
  proof (cases "max (binade x) (- 1022) = max (binade y) (- 1022)")
    case True
    then have q: "quantum x = quantum y"
      by (simp add: quantum_def)
    have "x / quantum y \<le> y / quantum y"
      using assms(2) by (simp add: divide_right_mono)
    then have "round_even (x / quantum y) \<le> round_even (y / quantum y)"
      by (rule round_even_mono)
    then show ?thesis
      by (simp add: rnd_def q)
  next
    case False
    with b have lt: "max (binade x) (- 1022) + 1 \<le> binade y" and n: "- 1022 \<le> binade y"
      by (auto simp: max_def split: if_splits)
    have "rnd x \<le> 2 powi (max (binade x) (- 1022) + 1)"
      using assms(1) by (rule rnd_upper)
    also have "\<dots> \<le> 2 powi binade y"
      using lt by (intro power_int_increasing) simp_all
    also have "\<dots> \<le> rnd y"
      using y n by (rule rnd_lower)
    finally show ?thesis .
  qed
qed

lemma rnd_zero [simp]: "rnd 0 = 0"
  by (simp add: rnd_def)

lemma rnd_idem:
  assumes "0 < x"
  shows "rnd (rnd x) = rnd x"
proof -
  let ?E = "max (binade x) (- 1022)"
  let ?n = "round_even (x / quantum x)"
  let ?r = "rnd x"
  have r: "?r = of_int ?n * quantum x"
    by (simp add: rnd_def)
  have n0: "0 \<le> ?n"
    using assms by (intro round_even_ge) simp
  have n1: "?n \<le> 2 ^ 53"
    using scaled_less [OF assms] by (intro round_even_le) simp
  show ?thesis
  proof (cases "?n = 0")
    case True
    then show ?thesis by (simp add: r)
  next
    case False
    with n0 have npos: "0 < ?n" by simp
    then have rpos: "0 < ?r"
      by (simp add: r)
    show ?thesis
    proof (cases "?n = 2 ^ 53")
      case True
      then have rv: "?r = 2 powi (?E + 1)"
        by (simp add: r quantum_eq power_int_add)
      then have "binade ?r = ?E + 1"
        by (intro binade_eq) (simp_all add: power_int_add)
      then have q: "quantum ?r = 2 * quantum x"
        by (simp add: quantum_eq max_def power_int_add)
      have r53: "?r = 2 ^ 53 * quantum x"
        by (simp add: r True)
      have "?r / quantum ?r = of_int (2 ^ 52)"
        unfolding q by (subst r53) simp
      then have "round_even (?r / quantum ?r) = 2 ^ 52"
        by (simp only: round_even_of_int)
      then have "rnd ?r = 2 ^ 52 * (2 * quantum x)"
        by (simp add: rnd_def [of ?r] q)
      also have "\<dots> = ?r"
        by (subst r53) simp
      finally show ?thesis .
    next
      case False
      with n1 have nlt: "?n < 2 ^ 53" by simp
      then have "real_of_int ?n < 2 ^ 53"
        by (metis of_int_less_iff of_int_numeral of_int_power)
      then have "?r < 2 ^ 53 * quantum x"
        by (simp add: r)
      also have "\<dots> = 2 powi (?E + 1)"
        by (simp add: quantum_eq power_int_add)
      finally have up: "?r < 2 powi (?E + 1)" .
      have E: "max (binade ?r) (- 1022) = ?E"
      proof (cases "- 1022 \<le> binade x")
        case True
        then have "2 powi ?E \<le> ?r"
          using rnd_lower [OF assms True] by (simp add: max_def)
        with up rpos have "binade ?r = ?E"
          by (intro binade_eq) simp_all
        with True show ?thesis by (simp add: max_def)
      next
        case False
        then have e: "?E = - 1022" by (simp add: max_def)
        have "binade ?r < - 1021"
        proof (rule ccontr)
          assume "\<not> binade ?r < - 1021"
          then have "- 1021 \<le> binade ?r" by simp
          then have "(2::real) powi (- 1021) \<le> 2 powi binade ?r"
            by (intro power_int_increasing) simp_all
          also have "\<dots> \<le> ?r"
            using binade_bounds(1) [of ?r] rpos by simp
          finally show False
            using up e by simp
        qed
        then show ?thesis
          using e by (simp add: max_def)
      qed
      then have q: "quantum ?r = quantum x"
        by (simp add: quantum_def)
      have "?r / quantum ?r = of_int ?n"
        unfolding q by (simp add: r)
      then have "round_even (?r / quantum ?r) = ?n"
        by (simp only: round_even_of_int)
      then show ?thesis
        by (simp add: rnd_def [of ?r] q) (simp add: r)
    qed
  qed
qed

lemma round_even_eq:
  assumes "of_int n - 1 / 2 < y" "y < of_int n + 1 / 2"
  shows "round_even y = n"
proof -
  have "\<lfloor>y\<rfloor> = n \<or> \<lfloor>y\<rfloor> = n - 1"
    using assms by (simp add: floor_eq_iff) linarith
  then show ?thesis
  proof
    assume f: "\<lfloor>y\<rfloor> = n"
    then show ?thesis
      using assms by (simp add: round_even_def Let_def)
  next
    assume f: "\<lfloor>y\<rfloor> = n - 1"
    then show ?thesis
      using assms by (simp add: round_even_def Let_def)
  qed
qed

lemma round_even_tie:
  assumes "y = of_int n + 1 / 2" "even n"
  shows "round_even y = n"
proof -
  have "\<lfloor>y\<rfloor> = n"
    using assms(1) by (simp add: floor_eq_iff)
  then show ?thesis
    using assms by (simp add: round_even_def Let_def)
qed

lemma round_even_tie_up:
  assumes "y = of_int n - 1 / 2" "even n"
  shows "round_even y = n"
proof -
  have "\<lfloor>y\<rfloor> = n - 1"
    using assms(1) by (simp add: floor_eq_iff)
  then show ?thesis
    using assms by (simp add: round_even_def Let_def)
qed

lemma to_double_eval:
  assumes "2 powi k \<le> \<bar>x\<bar>" "\<bar>x\<bar> < 2 powi (k + 1)" "- 1022 \<le> k"
    and "round_even (x / 2 powi (k - 52)) = n"
    and "\<bar>of_int n * 2 powi (k - 52)\<bar> < (2::real) ^ 1024"
  shows "to_double x = Fin (of_int n * 2 powi (k - 52))"
proof -
  have b: "binade x = k"
    using assms(1,2) by (rule binade_eq)
  have "(0::real) < 2 powi k"
    by simp
  also note assms(1)
  finally have x: "x \<noteq> 0"
    by simp
  have q: "quantum x = 2 powi (k - 52)"
    using assms(3) by (simp add: quantum_def b max_def)
  show ?thesis
    using x assms(4,5) by (simp add: to_double_def q Let_def)
qed

lemma to_double_dyadic:
  assumes "\<bar>m\<bar> < 2 ^ 53" "- 1074 \<le> e" "e \<le> 970"
  shows "to_double (of_int m * 2 powi e) = Fin (of_int m * 2 powi e)"
proof (cases "m = 0")
  case True
  then show ?thesis
    by (simp add: to_double_def)
next
  case False
  let ?x = "real_of_int m * 2 powi e"
  have x: "?x \<noteq> 0"
    using False by simp
  have m: "\<bar>real_of_int m\<bar> < 2 ^ 53"
    using assms(1) by (metis of_int_abs of_int_less_iff of_int_numeral of_int_power)
  have ax: "\<bar>?x\<bar> = \<bar>real_of_int m\<bar> * 2 powi e"
    by (simp add: abs_mult)
  have "\<bar>?x\<bar> < 2 ^ 53 * 2 powi e"
    unfolding ax using m by simp
  also have "\<dots> = 2 powi (e + 53)"
    by (simp add: power_int_add)
  finally have up: "\<bar>?x\<bar> < 2 powi (e + 53)" .
  have "binade ?x < e + 53"
  proof (rule ccontr)
    assume "\<not> binade ?x < e + 53"
    then have "(2::real) powi (e + 53) \<le> 2 powi binade ?x"
      by (intro power_int_increasing) simp_all
    also have "\<dots> \<le> \<bar>?x\<bar>"
      using binade_bounds(1) [OF x] .
    finally show False
      using up by simp
  qed
  then have le: "max (binade ?x) (- 1022) - 52 \<le> e"
    using assms(2) by (simp add: max_def)
  define g where "g = max (binade ?x) (- 1022) - 52"
  define j where "j = nat (e - g)"
  have e: "e = g + int j"
    using le by (simp add: j_def g_def)
  have q: "quantum ?x = 2 powi g"
    by (simp add: quantum_def g_def)
  have pe: "(2::real) powi e = 2 powi g * 2 ^ j"
    by (subst e) (simp add: power_int_add)
  have xq: "?x = of_int (m * 2 ^ j) * 2 powi g"
    by (simp add: pe)
  have "?x / 2 powi g = of_int (m * 2 ^ j)"
    by (subst xq) simp
  then have r: "round_even (?x / 2 powi g) = m * 2 ^ j"
    by (simp only: round_even_of_int)
  have "of_int (round_even (?x / 2 powi g)) * 2 powi g = ?x"
    unfolding r by (rule xq [symmetric])
  then have rr: "of_int (round_even (?x / quantum ?x)) * quantum ?x = ?x"
    by (simp only: q)
  have "\<bar>?x\<bar> < 2 powi (e + 53)"
    by (rule up)
  also have "\<dots> \<le> 2 powi 1024"
    using assms(3) by (intro power_int_increasing) simp_all
  finally have "\<bar>?x\<bar> < 2 ^ 1024"
    by simp
  then show ?thesis
    using x unfolding to_double_def Let_def rr by simp
qed

lemma to_double_of_int:
  assumes "\<bar>n\<bar> \<le> 2 ^ 53"
  shows "to_double (of_int n) = Fin (of_int n)"
proof (cases "\<bar>n\<bar> = 2 ^ 53")
  case True
  then have "n = 2 ^ 53 \<or> n = - (2 ^ 53)"
    by linarith
  then show ?thesis
    using to_double_dyadic [of 1 53] to_double_dyadic [of "- 1" 53] by auto
next
  case False
  with assms have "\<bar>n\<bar> < 2 ^ 53"
    by simp
  then show ?thesis
    using to_double_dyadic [of n 0] by simp
qed

subsection \<open>Resolved weights in double arithmetic\<close>

lemma fl_node_sum_fields:
  "f_data (fl_node_sum f h) = f_data h" "f_depth (fl_node_sum f h) = f_depth h"
  "f_height (fl_node_sum f h) = f_height h"
  by (cases h; simp add: Let_def)+

lemma fl_node_sum_hierarchy_at:
  "fl_node_sum f (fl_hierarchy_at d (TreeNode nm v cs)) =
     FNode (TreeNode nm v cs) d
       (if cs = [] then 0
        else Suc (foldr max (map (\<lambda>c. f_height (fl_node_sum f (fl_hierarchy_at (Suc d) c))) cs) 0))
       (foldr (\<lambda>c s. js_add s (f_value (fl_node_sum f (fl_hierarchy_at (Suc d) c)))) cs
          (js_or_zero (f (TreeNode nm v cs))))
       (map (\<lambda>c. fl_node_sum f (fl_hierarchy_at (Suc d) c)) cs)"
  by (simp add: Let_def foldr_map comp_def fl_node_sum_fields)

lemma fl_node_sum_value_depth:
  "f_value (fl_node_sum f (fl_hierarchy_at d t)) = f_value (fl_node_sum f (fl_hierarchy_at d' t))"
proof (induction t arbitrary: d d')
  case (TreeNode nm v cs)
  have eq: "f_value (fl_node_sum f (fl_hierarchy_at (Suc d) c))
      = f_value (fl_node_sum f (fl_hierarchy_at (Suc d') c))" if "c \<in> set cs" for c
    using that by (rule TreeNode.IH)
  have "foldr (\<lambda>c s. js_add s (f_value (fl_node_sum f (fl_hierarchy_at (Suc d) c)))) cs a
      = foldr (\<lambda>c s. js_add s (f_value (fl_node_sum f (fl_hierarchy_at (Suc d') c)))) cs a" for a
    by (intro foldr_cong) (simp_all add: eq)
  then show ?case
    unfolding fl_node_sum_hierarchy_at by (simp only: fnode.sel)
qed

lemma fl_value_at_depth:
  "f_value (fl_node_sum fl_value_or_zero (fl_hierarchy_at d t)) = fl_resolved t"
  unfolding fl_resolved_def fl_hierarchy_def by (rule fl_node_sum_value_depth)

lemma fl_resolved_unfold:
  "fl_resolved (TreeNode nm v cs)
     = foldr (\<lambda>c s. js_add s (fl_resolved c)) cs (js_or_zero (fl_value_or_zero (TreeNode nm v cs)))"
proof -
  have "fl_resolved (TreeNode nm v cs)
      = f_value (fl_node_sum fl_value_or_zero (fl_hierarchy_at 0 (TreeNode nm v cs)))"
    by (simp only: fl_resolved_def fl_hierarchy_def)
  also have "\<dots> = foldr (\<lambda>c s. js_add s (fl_resolved c)) cs
      (js_or_zero (fl_value_or_zero (TreeNode nm v cs)))"
    unfolding fl_node_sum_hierarchy_at by (simp add: fl_value_at_depth)
  finally show ?thesis .
qed

lemma fl_node_sort_fields:
  "f_value (fl_node_sort cmp h) = f_value h" "f_data (fl_node_sort cmp h) = f_data h"
  "f_depth (fl_node_sort cmp h) = f_depth h" "f_height (fl_node_sort cmp h) = f_height h"
  by (cases h; simp)+

lemma fl_build_at_unfold:
  "fl_build_at d (TreeNode nm v cs) =
     FNode (TreeNode nm v cs) d
       (if cs = [] then 0 else Suc (foldr max (map (\<lambda>c. f_height (fl_build_at (Suc d) c)) cs) 0))
       (fl_resolved (TreeNode nm v cs))
       (map (fl_build_at (Suc d)) (array_sort fl_by_resolved_desc cs))"
proof -
  let ?g = "\<lambda>c. fl_node_sum fl_value_or_zero (fl_hierarchy_at (Suc d) c)"
  have cmp: "(\<lambda>a b. fl_by_value_desc (?g a) (?g b)) = fl_by_resolved_desc"
    by (simp add: fun_eq_iff fl_by_value_desc_def fl_by_resolved_desc_def fl_value_at_depth)
  have srt: "array_sort fl_by_value_desc (map ?g cs) = map ?g (array_sort fl_by_resolved_desc cs)"
    using array_sort_map [of fl_by_value_desc ?g cs] by (simp only: cmp)
  have hg: "(\<lambda>c. f_height (?g c)) = (\<lambda>c. f_height (fl_build_at (Suc d) c))"
    by (simp add: fun_eq_iff fl_build_at_def fl_node_sort_fields)
  have "fl_build_at d (TreeNode nm v cs)
      = fl_node_sort fl_by_value_desc (fl_node_sum fl_value_or_zero (fl_hierarchy_at d (TreeNode nm v cs)))"
    by (simp only: fl_build_at_def)
  also have "\<dots> = FNode (TreeNode nm v cs) d
       (if cs = [] then 0 else Suc (foldr max (map (\<lambda>c. f_height (?g c)) cs) 0))
       (foldr (\<lambda>c s. js_add s (fl_resolved c)) cs (js_or_zero (fl_value_or_zero (TreeNode nm v cs))))
       (map (fl_node_sort fl_by_value_desc) (map ?g (array_sort fl_by_resolved_desc cs)))"
    unfolding fl_node_sum_hierarchy_at by (simp add: srt fl_value_at_depth)
  also have "\<dots> = FNode (TreeNode nm v cs) d
       (if cs = [] then 0 else Suc (foldr max (map (\<lambda>c. f_height (fl_build_at (Suc d) c)) cs) 0))
       (fl_resolved (TreeNode nm v cs))
       (map (fl_build_at (Suc d)) (array_sort fl_by_resolved_desc cs))"
    by (simp add: hg fl_resolved_unfold fl_build_at_def [abs_def])
  finally show ?thesis .
qed

lemma fl_build_at_fields:
  "f_data (fl_build_at d t) = t" "f_value (fl_build_at d t) = fl_resolved t"
  "f_depth (fl_build_at d t) = d"
  "f_children (fl_build_at d t) = map (fl_build_at (Suc d)) (array_sort fl_by_resolved_desc (kids t))"
  by (cases t; simp add: fl_build_at_unfold)+

lemma fl_build_hierarchy_build_at: "fl_build_hierarchy data = fl_build_at 0 data"
  by (simp add: fl_build_hierarchy_def fl_build_at_def fl_hierarchy_def)

lemma fl_build_at_descendants:
  "h \<in> set (f_descendants (fl_build_at d t)) \<Longrightarrow>
   \<exists>d' t'. t' \<in> set (subtrees t) \<and> h = fl_build_at d' t'"
proof (induction t arbitrary: d)
  case (TreeNode nm v cs)
  from TreeNode.prems consider "h = fl_build_at d (TreeNode nm v cs)"
    | c where "c \<in> set cs" "h \<in> set (f_descendants (fl_build_at (Suc d) c))"
    unfolding fl_build_at_unfold [of d nm v cs] by (auto simp: set_array_sort)
  then show ?case
  proof cases
    case 1
    then show ?thesis
      using subtrees_self by blast
  next
    case 2
    with TreeNode.IH obtain d' t' where "t' \<in> set (subtrees c)" "h = fl_build_at d' t'"
      by blast
    with 2 show ?thesis
      by auto
  qed
qed

lemma count_list_concat_insert_by:
  "count_list (concat (map g (insert_by cmp x ys))) s
     = count_list (g x) s + count_list (concat (map g ys)) s"
  by (induction ys) simp_all

lemma count_list_concat_array_sort:
  "count_list (concat (map g (array_sort cmp xs))) s = count_list (concat (map g xs)) s"
  by (induction xs) (simp_all add: array_sort_def count_list_concat_insert_by)

lemma count_list_array_sort: "count_list (array_sort cmp xs) s = count_list xs s"
  using count_list_concat_array_sort [of "\<lambda>x. [x]" cmp xs s] by simp

lemma count_list_concat_cong:
  "(\<And>c. c \<in> set cs \<Longrightarrow> count_list (g c) s = count_list (h c) s) \<Longrightarrow>
   count_list (concat (map g cs)) s = count_list (concat (map h cs)) s"
  by (induction cs) simp_all

lemma fl_descendants_count:
  "count_list (map f_data (f_descendants (fl_build_at d t))) s = count_list (subtrees t) s"
proof (induction t arbitrary: d)
  case (TreeNode nm v cs)
  let ?g = "\<lambda>c. map f_data (f_descendants (fl_build_at (Suc d) c))"
  have "count_list (concat (map ?g (array_sort fl_by_resolved_desc cs))) s
      = count_list (concat (map ?g cs)) s"
    by (rule count_list_concat_array_sort)
  also have "\<dots> = count_list (concat (map subtrees cs)) s"
    using TreeNode.IH by (intro count_list_concat_cong) auto
  finally show ?case
    unfolding fl_build_at_unfold [of d nm v cs]
    by (simp add: map_concat comp_def)
qed

lemma fl_children_count:
  "count_list (map f_data (f_children (fl_build_at d t))) c = count_list (kids t) c"
  by (simp add: fl_build_at_fields comp_def count_list_array_sort)

lemma js_or_zero_to_double [simp]: "js_or_zero (to_double x) = to_double x"
  by (auto simp: js_or_zero_def to_double_def Let_def)

lemma js_or_zero_Fin [simp]: "js_or_zero (Fin x) = Fin x"
  by (simp add: js_or_zero_def)

lemma fl_resolved_leaf:
  "fl_resolved (TreeNode nm v []) = (case v of None \<Rightarrow> Fin 0 | Some x \<Rightarrow> to_double x)"
  by (simp add: fl_resolved_unfold fl_value_or_zero_def split: option.split)

lemma fl_resolved_inner:
  assumes "valid_tree t" "kids t \<noteq> []"
  shows "fl_resolved t = foldr (\<lambda>c s. js_add s (fl_resolved c)) (kids t) (Fin 0)"
proof (cases t)
  case (TreeNode nm v cs)
  with assms have "v = None"
    by (auto split: option.splits)
  then show ?thesis
    unfolding TreeNode fl_resolved_unfold by (simp add: fl_value_or_zero_def)
qed

lemma foldr_add_exact:
  assumes "\<forall>c \<in> set cs. \<exists>n::nat. g c = Fin (real n)"
    and "\<forall>c \<in> set cs. g c = Fin (r c)"
    and "a + sum_list (map r cs) \<le> 2 ^ 53" and "\<forall>c \<in> set cs. 0 \<le> r c" and "a = real m"
  shows "foldr (\<lambda>c s. js_add s (g c)) cs (Fin a) = Fin (a + sum_list (map r cs))"
  using assms
proof (induction cs)
  case Nil
  then show ?case by simp
next
  case (Cons c cs)
  from Cons.prems(4) have nn: "0 \<le> r c"
    by simp
  have "foldr (\<lambda>c s. js_add s (g c)) cs (Fin a) = Fin (a + sum_list (map r cs))"
    using Cons.prems nn by (intro Cons.IH) auto
  moreover from Cons.prems(1,2) obtain n :: nat where n: "r c = real n"
    by auto
  moreover have "\<forall>c \<in> set cs. \<exists>n::nat. r c = real n"
    using Cons.prems(1,2) by auto
  then obtain k :: nat where k: "sum_list (map r cs) = real k"
  proof (induction cs arbitrary: thesis)
    case Nil
    show ?case using Nil(1) [of 0] by simp
  next
    case (Cons x xs)
    from Cons.prems(2) obtain j :: nat where j: "r x = real j" by auto
    from Cons.prems(2) have "\<forall>c\<in>set xs. \<exists>n. r c = real n" by simp
    with Cons.IH obtain i :: nat where "sum_list (map r xs) = real i" by blast
    with j Cons.prems(1) [of "j + i"] show ?case by simp
  qed
  ultimately have "foldr (\<lambda>c s. js_add s (g c)) (c # cs) (Fin a)
      = to_double (of_int (int (m + k + n)))"
    using Cons.prems(2,5) by simp
  also have "\<dots> = Fin (of_int (int (m + k + n)))"
  proof (rule to_double_of_int)
    have "real (m + k + n) \<le> 2 ^ 53"
      using Cons.prems(3,5) n k by simp
    then have "m + k + n \<le> 2 ^ 53"
      by (metis of_nat_le_iff of_nat_numeral of_nat_power)
    then show "\<bar>int (m + k + n)\<bar> \<le> 2 ^ 53"
      by simp
  qed
  finally show ?case
    using Cons.prems(5) n k by simp
qed

lemma whole_nat:
  assumes "0 \<le> x" "of_int \<lfloor>x\<rfloor> = x"
  shows "\<exists>j::nat. x = real j"
proof -
  have "0 \<le> \<lfloor>x\<rfloor>"
    using assms(1) by simp
  then have "real (nat \<lfloor>x\<rfloor>) = of_int \<lfloor>x\<rfloor>"
    by simp
  with assms(2) show ?thesis
    by metis
qed

lemma whole_resolved:
  assumes "valid_tree t" "whole_tree t"
  shows "\<exists>n::nat. resolved t = real n"
  using assms
proof (induction t)
  case (TreeNode nm v cs)
  have "\<forall>c \<in> set cs. \<exists>n::nat. resolved c = real n"
    using TreeNode by auto
  then have "\<exists>k::nat. sum_list (map resolved cs) = real k"
  proof (induction cs)
    case Nil
    show ?case by (intro exI [of _ 0]) simp
  next
    case (Cons x xs)
    then obtain j i :: nat where "resolved x = real j" "sum_list (map resolved xs) = real i"
      by auto
    then show ?case
      by (intro exI [of _ "j + i"]) simp
  qed
  then obtain k :: nat where k: "sum_list (map resolved cs) = real k"
    by blast
  have "\<exists>j::nat. value_or_zero (TreeNode nm v cs) = real j"
  proof (cases v)
    case None
    then show ?thesis by (intro exI [of _ 0]) (simp add: value_or_zero_def)
  next
    case (Some x)
    with TreeNode.prems have "0 \<le> x \<and> of_int \<lfloor>x\<rfloor> = x"
      by simp
    then have "\<exists>j::nat. x = real j"
      using whole_nat by blast
    then show ?thesis
      using Some by (simp add: value_or_zero_def)
  qed
  then obtain j :: nat where "value_or_zero (TreeNode nm v cs) = real j"
    by blast
  with k show ?case
    unfolding resolved_unfold by (intro exI [of _ "j + k"]) simp
qed

lemma fl_resolved_exact:
  assumes "valid_tree t" "whole_tree t" "resolved t \<le> 2 ^ 53"
  shows "fl_resolved t = Fin (resolved t)"
  using assms
proof (induction t)
  case (TreeNode nm v cs)
  have nn: "0 \<le> resolved c" if "c \<in> set cs" for c
    using TreeNode.prems(1) that by (intro resolved_nonneg) simp
  then have snn: "0 \<le> sum_list (map resolved cs)"
    by (intro sum_list_nonneg) auto
  have v0: "0 \<le> value_or_zero (TreeNode nm v cs)"
    using TreeNode.prems(1) by (simp add: value_or_zero_def split: option.splits)
  have le: "resolved c \<le> 2 ^ 53" if c: "c \<in> set cs" for c
  proof -
    have "resolved c \<le> sum_list (map resolved cs)"
      using c nn by (intro member_le_sum_list) auto
    also have "\<dots> \<le> resolved (TreeNode nm v cs)"
      unfolding resolved_unfold using v0 by simp
    finally show ?thesis
      using TreeNode.prems(3) by simp
  qed
  have ih: "fl_resolved c = Fin (resolved c)" if "c \<in> set cs" for c
    using that TreeNode.prems(1,2) le by (intro TreeNode.IH) auto
  have wc: "\<exists>n::nat. resolved c = real n" if "c \<in> set cs" for c
    using that TreeNode.prems(1,2) by (intro whole_resolved) auto
  obtain j :: nat where j: "value_or_zero (TreeNode nm v cs) = real j"
  proof (cases v)
    case None
    then show ?thesis using that [of 0] by (simp add: value_or_zero_def)
  next
    case (Some x)
    with TreeNode.prems have "0 \<le> x \<and> of_int \<lfloor>x\<rfloor> = x"
      by simp
    then have "\<exists>j::nat. x = real j"
      using whole_nat by blast
    then show ?thesis
      using Some that by (auto simp: value_or_zero_def)
  qed
  have vle: "value_or_zero (TreeNode nm v cs) \<le> 2 ^ 53"
    using TreeNode.prems(3) snn unfolding resolved_unfold by simp
  have "real j \<le> 2 ^ 53"
    using vle j by simp
  then have "j \<le> 2 ^ 53"
    by (metis of_nat_le_iff of_nat_numeral of_nat_power)
  then have "to_double (of_int (int j)) = Fin (of_int (int j))"
    by (intro to_double_of_int) simp
  then have fv: "fl_value_or_zero (TreeNode nm v cs) = Fin (value_or_zero (TreeNode nm v cs))"
    using j by (simp add: fl_value_or_zero_def value_or_zero_def split: option.splits)
  have "foldr (\<lambda>c s. js_add s (fl_resolved c)) cs (Fin (value_or_zero (TreeNode nm v cs)))
      = Fin (value_or_zero (TreeNode nm v cs) + sum_list (map resolved cs))"
  proof (rule foldr_add_exact [where m = j])
    show "\<forall>c\<in>set cs. \<exists>n. fl_resolved c = Fin (real n)"
      using ih wc by auto
    show "\<forall>c\<in>set cs. fl_resolved c = Fin (resolved c)"
      using ih by simp
    show "value_or_zero (TreeNode nm v cs) + sum_list (map resolved cs) \<le> 2 ^ 53"
      using TreeNode.prems(3) unfolding resolved_unfold .
    show "\<forall>c\<in>set cs. 0 \<le> resolved c"
      using nn by simp
    show "value_or_zero (TreeNode nm v cs) = real j"
      by (rule j)
  qed
  then show ?case
    unfolding fl_resolved_unfold resolved_unfold by (simp add: fv)
qed

text \<open>
  Claim C6, amended. For a valid document, the hierarchy has one node per document node,
  with one child per child of the document node, and each carries the resolved weight of
  its document node. The resolved weight of a node with children is the sum of its
  children's resolved weights as the loop of \<open>node.sum\<close> accumulates it: starting from
  0, the weights are added one at a time, from the last child to the first, and every
  addition is rounded to the nearest double. For a node without children it is the declared
  value, or 0 when none is declared. The rounded sum is the exact sum of the weights
  whenever the declared values below the node are whole numbers and their exact sum is at
  most \<open>2 ^ 53\<close>.
\<close>

theorem weight_sum_rounded:
  assumes "valid_tree data"
  shows "(\<forall>t. count_list (map f_data (f_descendants (fl_build_hierarchy data))) t
             = count_list (subtrees data) t) \<and>
         (\<forall>h \<in> set (f_descendants (fl_build_hierarchy data)).
            f_value h = fl_resolved (f_data h) \<and>
            (\<forall>c. count_list (map f_data (f_children h)) c = count_list (kids (f_data h)) c)) \<and>
         (\<forall>t \<in> set (subtrees data).
            (kids t \<noteq> [] \<longrightarrow>
               fl_resolved t = foldr (\<lambda>c s. js_add s (fl_resolved c)) (kids t) (Fin 0)) \<and>
            (kids t = [] \<longrightarrow>
               fl_resolved t = (case declared t of None \<Rightarrow> Fin 0 | Some v \<Rightarrow> to_double v)) \<and>
            (whole_tree t \<and> resolved t \<le> 2 ^ 53 \<longrightarrow> fl_resolved t = Fin (resolved t)))"
proof (intro conjI allI ballI)
  fix t
  show "count_list (map f_data (f_descendants (fl_build_hierarchy data))) t
      = count_list (subtrees data) t"
    unfolding fl_build_hierarchy_build_at by (rule fl_descendants_count)
next
  fix h assume "h \<in> set (f_descendants (fl_build_hierarchy data))"
  then obtain d t where h: "h = fl_build_at d t"
    unfolding fl_build_hierarchy_build_at using fl_build_at_descendants by blast
  show "f_value h = fl_resolved (f_data h)"
    by (simp add: h fl_build_at_fields)
  show "count_list (map f_data (f_children h)) c = count_list (kids (f_data h)) c" for c
    unfolding h fl_build_at_fields(1) by (rule fl_children_count)
next
  fix t assume "t \<in> set (subtrees data)"
  with assms have v: "valid_tree t"
    by (rule valid_subtrees)
  show "kids t \<noteq> [] \<longrightarrow>
      fl_resolved t = foldr (\<lambda>c s. js_add s (fl_resolved c)) (kids t) (Fin 0)"
    using fl_resolved_inner [OF v] by simp
  show "kids t = [] \<longrightarrow>
      fl_resolved t = (case declared t of None \<Rightarrow> Fin 0 | Some v \<Rightarrow> to_double v)"
    by (cases t) (simp add: fl_resolved_leaf)
  show "whole_tree t \<and> resolved t \<le> 2 ^ 53 \<longrightarrow> fl_resolved t = Fin (resolved t)"
    using fl_resolved_exact [OF v] by simp
qed

lemma to_double_small [simp]:
  "to_double 0 = Fin 0" "to_double 1 = Fin 1" "to_double 2 = Fin 2" "to_double 3 = Fin 3"
  "to_double 4 = Fin 4" "to_double 5 = Fin 5" "to_double 6 = Fin 6"
  using to_double_of_int [of 0] to_double_of_int [of 1] to_double_of_int [of 2]
    to_double_of_int [of 3] to_double_of_int [of 4] to_double_of_int [of 5]
    to_double_of_int [of 6]
  by simp_all

lemma to_double_big:
  "to_double 9007199254740992 = Fin 9007199254740992"
  "to_double (- 9007199254740991) = Fin (- 9007199254740991)"
  "to_double 9007199254740993 = Fin 9007199254740992"
proof -
  show "to_double 9007199254740992 = Fin 9007199254740992"
    using to_double_of_int [of 9007199254740992] by simp
  show "to_double (- 9007199254740991) = Fin (- 9007199254740991)"
    using to_double_of_int [of "- 9007199254740991"] by simp
  have r: "round_even (9007199254740993 / 2 powi (53 - 52)) = 4503599627370496"
    by (rule round_even_tie) simp_all
  show "to_double 9007199254740993 = Fin 9007199254740992"
    using to_double_eval [of 53 9007199254740993 4503599627370496, OF _ _ _ r] by simp
qed

theorem weight_sum_rounded_witness:
  "valid_tree doc \<and>
   fl_build_hierarchy doc \<in> set (f_descendants (fl_build_hierarchy doc)) \<and>
   f_value (fl_build_hierarchy doc) = fl_resolved doc \<and>
   doc \<in> set (subtrees doc) \<and> kids doc \<noteq> [] \<and> whole_tree doc \<and> resolved doc \<le> 2 ^ 53 \<and>
   fl_resolved doc = foldr (\<lambda>c s. js_add s (fl_resolved c)) (kids doc) (Fin 0) \<and>
   fl_resolved doc = Fin 4 \<and>
   TreeNode ''A'' (Some 3) [] \<in> set (subtrees doc) \<and>
   fl_resolved (TreeNode ''A'' (Some 3) []) = to_double 3"
proof -
  let ?A = "TreeNode ''A'' (Some 3) []"
  have v: "valid_tree doc"
    by (simp add: doc_def)
  have m: "fl_build_hierarchy doc \<in> set (f_descendants (fl_build_hierarchy doc))"
    by (cases "fl_build_hierarchy doc") simp
  have d: "f_data (fl_build_hierarchy doc) = doc"
    by (simp add: fl_build_hierarchy_build_at fl_build_at_fields)
  have s: "doc \<in> set (subtrees doc)"
    by (rule subtrees_self)
  have k: "kids doc \<noteq> []"
    by (simp add: doc_def)
  have w: "whole_tree doc"
    by (simp add: doc_def)
  have r: "resolved doc = 4"
    by (simp add: doc_def resolved_unfold value_or_zero_def)
  have a: "?A \<in> set (subtrees doc)" "kids ?A = []" "declared ?A = Some 3"
    by (simp_all add: doc_def)
  note T = weight_sum_rounded [OF v]
  from T have 1: "f_value (fl_build_hierarchy doc) = fl_resolved (f_data (fl_build_hierarchy doc))"
    using m by blast
  from T s have 2: "(kids doc \<noteq> [] \<longrightarrow>
        fl_resolved doc = foldr (\<lambda>c s. js_add s (fl_resolved c)) (kids doc) (Fin 0)) \<and>
      (whole_tree doc \<and> resolved doc \<le> 2 ^ 53 \<longrightarrow> fl_resolved doc = Fin (resolved doc))"
    by blast
  from T a(1) have 3: "kids ?A = [] \<longrightarrow>
      fl_resolved ?A = (case declared ?A of None \<Rightarrow> Fin 0 | Some v \<Rightarrow> to_double v)"
    by blast
  from 1 have c3: "f_value (fl_build_hierarchy doc) = fl_resolved doc"
    by (simp only: d)
  have c7: "resolved doc \<le> 2 ^ 53"
    by (simp add: r)
  from 2 k have c8: "fl_resolved doc = foldr (\<lambda>c s. js_add s (fl_resolved c)) (kids doc) (Fin 0)"
    by blast
  from 2 w c7 have "fl_resolved doc = Fin (resolved doc)"
    by blast
  then have c9: "fl_resolved doc = Fin 4"
    by (simp only: r)
  from 3 a(2) have "fl_resolved ?A = (case declared ?A of None \<Rightarrow> Fin 0 | Some v \<Rightarrow> to_double v)"
    by blast
  then have c11: "fl_resolved ?A = to_double 3"
    by (simp only: a(3) option.case)
  from v m c3 s k w c7 c8 c9 a(1) c11 show ?thesis
    by blast
qed

text \<open>
  Claim C6, as stated, fails in double arithmetic. The children of the root of
  \<open>big_doc\<close> weigh \<open>2 ^ 53\<close> and 1, the root weighs \<open>2 ^ 53\<close>, and the exact sum is
  \<open>2 ^ 53 + 1\<close>, which is no double.
\<close>

theorem weight_sum_counterexample:
  "valid_tree big_doc \<and>
   map f_value (f_children (fl_build_hierarchy big_doc)) = [Fin 9007199254740992, Fin 1] \<and>
   f_value (fl_build_hierarchy big_doc) = Fin 9007199254740992 \<and>
   f_value (fl_build_hierarchy big_doc) \<noteq> Fin (9007199254740992 + 1)"
  by (simp add: big_doc_def fl_build_hierarchy_build_at fl_build_at_unfold fl_resolved_unfold
      fl_value_or_zero_def array_sort_def fl_by_resolved_desc_def js_sub_def to_double_big)

subsection \<open>The partition of the angles in double arithmetic\<close>

lemma to_double_nonneg: "0 \<le> x \<Longrightarrow> js_nonneg (to_double x)"
  using rnd_nonneg [of x] by (simp add: to_double_rnd)

lemma to_double_stable: "to_double x = Fin x \<Longrightarrow> rnd x = x"
  by (cases "x = 0") (auto simp: to_double_rnd split: if_splits)

lemma js_le_Fin [simp]: "js_le (Fin a) (Fin b) \<longleftrightarrow> a \<le> b"
  by (auto simp: js_le_def)

lemma js_add_nonneg: "js_nonneg a \<Longrightarrow> js_nonneg b \<Longrightarrow> js_nonneg (js_add a b)"
  by (cases a; cases b) (simp_all add: to_double_nonneg)

lemma js_sub_nonneg: "a \<le> b \<Longrightarrow> js_nonneg (js_sub (Fin b) (Fin a))"
  by (simp add: js_sub_def to_double_nonneg)

lemma js_div_nonneg:
  "js_nonneg p \<Longrightarrow> js_nonneg v \<Longrightarrow> js_div p v = NaN \<or> js_nonneg (js_div p v)"
  by (cases p; cases v) (simp_all add: to_double_nonneg)

lemma js_mul_nonneg:
  "js_nonneg v \<Longrightarrow> k = NaN \<or> js_nonneg k \<Longrightarrow> js_mul v k = NaN \<or> js_nonneg (js_mul v k)"
  by (cases v; cases k) (simp_all add: to_double_nonneg)

lemma dice_factor_nonneg:
  assumes "js_nonneg v" "a \<le> b"
  shows "(if truthy v then js_div (js_sub (Fin b) (Fin a)) v else v) = NaN \<or>
         js_nonneg (if truthy v then js_div (js_sub (Fin b) (Fin a)) v else v)"
  using js_div_nonneg [OF js_sub_nonneg [OF assms(2)] assms(1)] assms(1) by simp

lemma js_add_step:
  assumes "0 \<le> a" "rnd a = a" "w = NaN \<or> js_nonneg w" "js_add (Fin a) w = Fin c"
  shows "a \<le> c \<and> rnd c = c"
proof -
  from assms(3,4) obtain y where w: "w = Fin y" and y: "0 \<le> y"
    by (cases w) simp_all
  from assms(4) have t: "to_double (a + y) = Fin c"
    by (simp add: w)
  show ?thesis
  proof (cases "a + y = 0")
    case True
    with assms(1) y have "a = 0" by simp
    moreover from t True have "c = 0" by (simp add: to_double_rnd)
    ultimately show ?thesis by simp
  next
    case False
    with assms(1) y have pos: "0 < a + y" by simp
    from t False have c: "c = rnd (a + y)"
      by (simp add: to_double_rnd split: if_splits)
    have "a \<le> c"
    proof (cases "a = 0")
      case True
      then show ?thesis
        using rnd_nonneg [of "a + y"] pos by (simp add: c)
    next
      case False
      with assms(1) have "0 < a" by simp
      then have "rnd a \<le> rnd (a + y)"
        using y by (intro rnd_mono) simp_all
      then show ?thesis
        by (simp add: c assms(2))
    qed
    moreover have "rnd c = c"
      unfolding c using pos by (rule rnd_idem)
    ultimately show ?thesis by simp
  qed
qed

lemma fl_position_node_rect:
  "fr_value (fr_rect (fl_position_node dy n ax0 ay0 ax1 ay1 h)) = f_value h"
  "fx0 (fr_rect (fl_position_node dy n ax0 ay0 ax1 ay1 h))
     = (if js_lt ax1 ax0 then js_div (js_add ax0 ax1) (Fin 2) else ax0)"
  "fx1 (fr_rect (fl_position_node dy n ax0 ay0 ax1 ay1 h))
     = (if js_lt ax1 ax0 then js_div (js_add ax0 ax1) (Fin 2) else ax1)"
  by (cases h; simp add: Let_def)+

lemma fr_descendants_self: "r \<in> set (fr_descendants r)"
  by (cases r) simp

lemma finite_end:
  assumes "is_fin (fx1 (fr_rect (fl_position_node dy n (Fin a) ay0 B ay1 h)))"
  shows "\<exists>b. B = Fin b"
  using assms unfolding fl_position_node_rect by (cases B) (simp_all split: if_splits)

lemma fl_dice_props:
  assumes IH: "\<And>c a b cy0 cy1. c \<in> set cs \<Longrightarrow> 0 \<le> a \<Longrightarrow> a \<le> b \<Longrightarrow> rnd a = a \<Longrightarrow> rnd b = b \<Longrightarrow>
                 finite_layout (fl_position_node dy n (Fin a) cy0 (Fin b) cy1 c) \<Longrightarrow>
                 (\<forall>m \<in> set (fr_descendants (fl_position_node dy n (Fin a) cy0 (Fin b) cy1 c)).
                    fl_node_ok m)"
    and nonneg: "\<forall>c \<in> set cs. js_nonneg (f_value c)" and k: "k = NaN \<or> js_nonneg k"
    and a: "0 \<le> a" "rnd a = a"
    and fin: "\<forall>r \<in> set (fl_dice dy n k (Fin a) cy0 cy1 cs). finite_layout r"
  shows "fl_chain (Fin a) (fl_dice dy n k (Fin a) cy0 cy1 cs) \<and>
         (\<forall>r \<in> set (fl_dice dy n k (Fin a) cy0 cy1 cs).
            fx1 (fr_rect r) = js_add (fx0 (fr_rect r)) (js_mul (fr_value (fr_rect r)) k) \<and>
            (\<forall>m \<in> set (fr_descendants r). fl_node_ok m))"
  using IH nonneg a fin
proof (induction cs arbitrary: a)
  case Nil
  show ?case by simp
next
  case (Cons c cs)
  let ?B = "js_add (Fin a) (js_mul (f_value c) k)"
  let ?r = "fl_position_node dy n (Fin a) cy0 ?B cy1 c"
  let ?rest = "fl_dice dy n k ?B cy0 cy1 cs"
  have d: "fl_dice dy n k (Fin a) cy0 cy1 (c # cs) = ?r # ?rest"
    by simp
  have fr: "finite_layout ?r" and frest: "\<forall>r \<in> set ?rest. finite_layout r"
    using Cons.prems(5) unfolding d by simp_all
  from fr have "is_fin (fx1 (fr_rect ?r))"
    unfolding finite_layout_def using fr_descendants_self by blast
  then obtain b where B: "?B = Fin b"
    using finite_end by blast
  have vc: "js_nonneg (f_value c)" and vs: "\<forall>c \<in> set cs. js_nonneg (f_value c)"
    using Cons.prems(2) by simp_all
  have w: "js_mul (f_value c) k = NaN \<or> js_nonneg (js_mul (f_value c) k)"
    using vc k by (rule js_mul_nonneg)
  have ab: "a \<le> b \<and> rnd b = b"
    using Cons.prems(3,4) w B by (rule js_add_step)
  then have b0: "0 \<le> b"
    using Cons.prems(3) by simp
  have r: "\<forall>m \<in> set (fr_descendants ?r). fl_node_ok m"
    unfolding B using Cons.prems(1) [of c a b cy0 cy1] Cons.prems(3,4) ab fr
    by (simp add: B)
  have rest: "fl_chain (Fin b) (fl_dice dy n k (Fin b) cy0 cy1 cs) \<and>
      (\<forall>r \<in> set (fl_dice dy n k (Fin b) cy0 cy1 cs).
         fx1 (fr_rect r) = js_add (fx0 (fr_rect r)) (js_mul (fr_value (fr_rect r)) k) \<and>
         (\<forall>m \<in> set (fr_descendants r). fl_node_ok m))"
  proof (rule Cons.IH)
    show "\<forall>m\<in>set (fr_descendants (fl_position_node dy n (Fin a') cy0' (Fin b') cy1' c')). fl_node_ok m"
      if "c' \<in> set cs" "0 \<le> a'" "a' \<le> b'" "rnd a' = a'" "rnd b' = b'"
        "finite_layout (fl_position_node dy n (Fin a') cy0' (Fin b') cy1' c')"
      for c' a' b' cy0' cy1'
      using Cons.prems(1) [of c' a' b' cy0' cy1'] that by simp
    show "\<forall>c\<in>set cs. js_nonneg (f_value c)"
      by (rule vs)
    show "0 \<le> b" by (rule b0)
    show "rnd b = b" using ab by simp
    show "\<forall>r\<in>set (fl_dice dy n k (Fin b) cy0 cy1 cs). finite_layout r"
      using frest by (simp add: B)
  qed
  have x0: "fx0 (fr_rect ?r) = Fin a" and x1: "fx1 (fr_rect ?r) = Fin b"
    using ab by (simp_all add: fl_position_node_rect B)
  have rest1: "fl_chain (Fin b) ?rest"
    unfolding B using rest by (rule conjunct1)
  have 1: "fl_chain (Fin a) (?r # ?rest)"
    using rest1 ab by (simp add: x0 x1)
  have "fr_value (fr_rect ?r) = f_value c"
    by (rule fl_position_node_rect(1))
  then have 2: "fx1 (fr_rect ?r) = js_add (fx0 (fr_rect ?r)) (js_mul (fr_value (fr_rect ?r)) k)"
    unfolding x0 x1 by (simp only: B)
  have 3: "\<forall>r \<in> set ?rest.
      fx1 (fr_rect r) = js_add (fx0 (fr_rect r)) (js_mul (fr_value (fr_rect r)) k) \<and>
      (\<forall>m \<in> set (fr_descendants r). fl_node_ok m)"
    unfolding B using rest by (rule conjunct2)
  have 4: "\<forall>q \<in> set (?r # ?rest).
      fx1 (fr_rect q) = js_add (fx0 (fr_rect q)) (js_mul (fr_value (fr_rect q)) k) \<and>
      (\<forall>m \<in> set (fr_descendants q). fl_node_ok m)"
    using 2 3 r by (simp only: list.set ball_simps)
  show ?case
    unfolding d using 1 4 by (rule conjI)
qed

lemma fl_position_ok:
  assumes "fl_good h" "0 \<le> a" "a \<le> b" "rnd a = a" "rnd b = b"
    and "finite_layout (fl_position_node dy n (Fin a) ay0 (Fin b) ay1 h)"
  shows "\<forall>m \<in> set (fr_descendants (fl_position_node dy n (Fin a) ay0 (Fin b) ay1 h)). fl_node_ok m"
  using assms
proof (induction h arbitrary: a b ay0 ay1)
  case (FNode d dep hg v cs)
  let ?k = "if truthy v then js_div (js_sub (Fin b) (Fin a)) v else v"
  let ?cy0 = "js_div (js_mul dy (Fin (real dep + 1))) (Fin (real n))"
  let ?cy1 = "js_div (js_mul dy (Fin (real dep + 2))) (Fin (real n))"
  let ?ks = "fl_dice dy n ?k (Fin a) ?cy0 ?cy1 cs"
  let ?rect = "\<lparr> fr_data = d, fr_depth = dep, fr_height = hg, fr_value = v,
      fx0 = Fin a, fx1 = Fin b,
      fy0 = (if js_lt ay1 ay0 then js_div (js_add ay0 ay1) (Fin 2) else ay0),
      fy1 = (if js_lt ay1 ay0 then js_div (js_add ay0 ay1) (Fin 2) else ay1) \<rparr>"
  let ?r = "FRNode ?rect ?ks"
  have v: "js_nonneg v" and kids: "\<forall>c \<in> set cs. fl_good c"
    using FNode.prems(1) by simp_all
  have ab: "a \<le> b"
    by (rule FNode.prems(3))
  have pn: "fl_position_node dy n (Fin a) ay0 (Fin b) ay1 (FNode d dep hg v cs) = ?r"
    using ab by (simp add: Let_def)
  have k: "?k = NaN \<or> js_nonneg ?k"
    using v ab by (rule dice_factor_nonneg)
  have nonneg: "\<forall>c \<in> set cs. js_nonneg (f_value c)"
  proof
    fix c assume "c \<in> set cs"
    with kids have "fl_good c" by blast
    then show "js_nonneg (f_value c)" by (cases c) simp
  qed
  have IH: "\<forall>m \<in> set (fr_descendants (fl_position_node dy n (Fin a') cy0 (Fin b') cy1 c)). fl_node_ok m"
    if "c \<in> set cs" "0 \<le> a'" "a' \<le> b'" "rnd a' = a'" "rnd b' = b'"
      "finite_layout (fl_position_node dy n (Fin a') cy0 (Fin b') cy1 c)" for c a' b' cy0 cy1
    using FNode.IH [OF that(1)] kids that by blast
  have fin: "\<forall>q \<in> set ?ks. finite_layout q"
  proof
    fix q assume q: "q \<in> set ?ks"
    have "is_fin (fx0 (fr_rect m)) \<and> is_fin (fx1 (fr_rect m))" if "m \<in> set (fr_descendants q)" for m
    proof -
      from q that have "m \<in> set (fr_descendants ?r)"
        by auto
      with FNode.prems(6) show ?thesis
        unfolding pn finite_layout_def by blast
    qed
    then show "finite_layout q"
      unfolding finite_layout_def by blast
  qed
  note dp = fl_dice_props [of cs dy n, OF IH nonneg k FNode.prems(2,4) fin]
  have fac: "fl_dice_factor ?rect = ?k"
    by (simp add: fl_dice_factor_def)
  have sel: "fx0 ?rect = Fin a" "fx1 ?rect = Fin b"
    by simp_all
  have c1: "js_le (Fin a) (Fin b)"
    using ab by simp
  have c2: "fl_chain (Fin a) ?ks"
    using dp by (rule conjunct1)
  have c3: "\<forall>c \<in> set ?ks.
      fx1 (fr_rect c) = js_add (fx0 (fr_rect c)) (js_mul (fr_value (fr_rect c)) ?k)"
    using dp by blast
  have root_ok: "fl_node_ok ?r"
    unfolding fl_node_ok_def frnode.sel fac sel using c1 c2 c3 by blast
  have "fl_node_ok m" if "m \<in> set (fr_descendants ?r)" for m
  proof -
    from that have "m = ?r \<or> (\<exists>q \<in> set ?ks. m \<in> set (fr_descendants q))"
      by simp
    then show ?thesis
    proof
      assume "m = ?r"
      with root_ok show ?thesis by simp
    next
      assume "\<exists>q \<in> set ?ks. m \<in> set (fr_descendants q)"
      then obtain q where "q \<in> set ?ks" "m \<in> set (fr_descendants q)"
        by blast
      with dp show ?thesis by blast
    qed
  qed
  then show ?case
    unfolding pn by blast
qed

lemma to_double_near:
  assumes "j \<le> 1074" "2 ^ 52 \<le> x * 2 ^ j" "x * 2 ^ j < 2 ^ 53"
    and "round_even (x * 2 ^ j) = n"
  shows "to_double x = Fin (of_int n / 2 ^ j)"
proof -
  define q :: real where "q = 2 ^ j"
  have q: "0 < q"
    by (simp add: q_def)
  define k where "k = 52 - int j"
  have p0: "(2::real) powi (k - 52) = 1 / q"
    by (simp add: k_def q_def power_int_minus divide_inverse)
  have p1: "(2::real) powi k = 2 ^ 52 / q"
    unfolding k_def q_def by (subst power_int_diff) simp_all
  have "k + 1 = 53 - int j"
    by (simp add: k_def)
  then have p2: "(2::real) powi (k + 1) = 2 ^ 53 / q"
    unfolding q_def by (simp only:) (subst power_int_diff, simp_all)
  have xq: "2 ^ 52 \<le> x * q" "x * q < 2 ^ 53" "round_even (x * q) = n"
    using assms(2-4) by (simp_all add: q_def)
  have "0 < x * q"
    using xq(1) by (rule less_le_trans [rotated]) simp
  then have x: "0 < x"
    using q by (simp add: zero_less_mult_iff)
  have 1: "2 powi k \<le> \<bar>x\<bar>"
    unfolding p1 using x q xq(1) by (simp add: pos_divide_le_eq)
  have 2: "\<bar>x\<bar> < 2 powi (k + 1)"
    unfolding p2 using x q xq(2) by (simp add: pos_less_divide_eq)
  have 3: "- 1022 \<le> k"
    using assms(1) by (simp add: k_def)
  have 4: "round_even (x / 2 powi (k - 52)) = n"
    unfolding p0 using xq(3) by simp
  have b: "real_of_int n \<le> x * q + 1 / 2" "x * q - 1 / 2 \<le> real_of_int n"
    using round_even_bounds [of "x * q"] by (simp_all add: xq(3))
  have "real_of_int n < 9007199254740993"
    using xq(2) b(1) by simp
  then have "n \<le> 9007199254740992"
    by simp
  then have n1: "real_of_int n \<le> 9007199254740992"
    by simp
  have "- 1 < real_of_int n"
    using xq(1) b(2) by simp
  then have "0 \<le> n"
    by simp
  then have n0: "0 \<le> real_of_int n"
    by simp
  have "real_of_int n / q \<le> real_of_int n / 1"
    using n0 q by (intro divide_left_mono) (simp_all add: q_def)
  also have "\<dots> \<le> 9007199254740992"
    using n1 by simp
  also have "\<dots> < (2::real) ^ 1024"
    by simp
  finally have "real_of_int n / q < 2 ^ 1024" .
  moreover have "0 \<le> real_of_int n / q"
    using n0 q by simp
  ultimately have 5: "\<bar>of_int n * 2 powi (k - 52)\<bar> < (2::real) ^ 1024"
    unfolding p0 by simp
  from to_double_eval [OF 1 2 3 4 5] show ?thesis
    unfolding p0 q_def by simp
qed

lemma to_double_numeral [simp]:
  "numeral m \<le> (2::int) ^ 53 \<Longrightarrow> to_double (numeral m) = Fin (numeral m)"
  "numeral m \<le> (2::int) ^ 53 \<Longrightarrow> to_double (- numeral m) = Fin (- numeral m)"
  "to_double (- 1) = Fin (- 1)"
  using to_double_of_int [of "numeral m"] to_double_of_int [of "- numeral m"]
    to_double_of_int [of "- 1"]
  by simp_all

lemma to_double_over:
  "to_double (884279719003555 / 140737488355328) = Fin (884279719003555 / 140737488355328)"
  "to_double (884279719003555 / 1548112371908608) = Fin (5144900183293411 / 9007199254740992)"
  "to_double (25724500916467055 / 9007199254740992) = Fin (1607781307279191 / 562949953421312)"
  "to_double (1607781307279191 / 562949953421312) = Fin (1607781307279191 / 562949953421312)"
  "to_double (5144900183293411 / 2251799813685248) = Fin (5144900183293411 / 2251799813685248)"
  "to_double (11576025412410175 / 2251799813685248) = Fin (180875397068909 / 35184372088832)"
  "to_double (5144900183293411 / 4503599627370496) = Fin (5144900183293411 / 4503599627370496)"
  "to_double (28296951008113763 / 4503599627370496) = Fin (7074237752028441 / 1125899906842624)"
proof -
  have "round_even (884279719003555 / 140737488355328 * 2 ^ 50) = 7074237752028440"
    by (rule round_even_eq) simp_all
  then show "to_double (884279719003555 / 140737488355328) = Fin (884279719003555 / 140737488355328)"
    using to_double_near [of 50 "884279719003555 / 140737488355328" 7074237752028440] by simp
  have "round_even (884279719003555 / 1548112371908608 * 2 ^ 53) = 5144900183293411"
    by (rule round_even_eq) simp_all
  then show "to_double (884279719003555 / 1548112371908608) = Fin (5144900183293411 / 9007199254740992)"
    using to_double_near [of 53 "884279719003555 / 1548112371908608" 5144900183293411] by simp
  have "round_even (25724500916467055 / 9007199254740992 * 2 ^ 51) = 6431125229116764"
    by (rule round_even_eq) simp_all
  then show "to_double (25724500916467055 / 9007199254740992) = Fin (1607781307279191 / 562949953421312)"
    using to_double_near [of 51 "25724500916467055 / 9007199254740992" 6431125229116764] by simp
  have "round_even (1607781307279191 / 562949953421312 * 2 ^ 51) = 6431125229116764"
    by (rule round_even_eq) simp_all
  then show "to_double (1607781307279191 / 562949953421312) = Fin (1607781307279191 / 562949953421312)"
    using to_double_near [of 51 "1607781307279191 / 562949953421312" 6431125229116764] by simp
  have "round_even (5144900183293411 / 2251799813685248 * 2 ^ 51) = 5144900183293411"
    by (rule round_even_eq) simp_all
  then show "to_double (5144900183293411 / 2251799813685248) = Fin (5144900183293411 / 2251799813685248)"
    using to_double_near [of 51 "5144900183293411 / 2251799813685248" 5144900183293411] by simp
  have "round_even (11576025412410175 / 2251799813685248 * 2 ^ 50) = 5788012706205088"
    by (rule round_even_tie_up) simp_all
  then show "to_double (11576025412410175 / 2251799813685248) = Fin (180875397068909 / 35184372088832)"
    using to_double_near [of 50 "11576025412410175 / 2251799813685248" 5788012706205088] by simp
  have "round_even (5144900183293411 / 4503599627370496 * 2 ^ 52) = 5144900183293411"
    by (rule round_even_eq) simp_all
  then show "to_double (5144900183293411 / 4503599627370496) = Fin (5144900183293411 / 4503599627370496)"
    using to_double_near [of 52 "5144900183293411 / 4503599627370496" 5144900183293411] by simp
  have "round_even (28296951008113763 / 4503599627370496 * 2 ^ 50) = 7074237752028441"
    by (rule round_even_eq) simp_all
  then show "to_double (28296951008113763 / 4503599627370496) = Fin (7074237752028441 / 1125899906842624)"
    using to_double_near [of 50 "28296951008113763 / 4503599627370496" 7074237752028441] by simp
qed

lemma js_nonneg_resolved: "valid_tree t \<Longrightarrow> js_nonneg (fl_resolved t)"
proof (induction t)
  case (TreeNode nm v cs)
  have kids: "js_nonneg (fl_resolved c)" if "c \<in> set cs" for c
    using TreeNode that by simp
  have "js_nonneg (fl_value_or_zero (TreeNode nm v cs))"
    using TreeNode.prems by (simp add: fl_value_or_zero_def to_double_nonneg split: option.splits)
  then have "js_nonneg (js_or_zero (fl_value_or_zero (TreeNode nm v cs)))"
    by (simp add: js_or_zero_def)
  then have "js_nonneg (foldr (\<lambda>c s. js_add s (fl_resolved c)) ds
      (js_or_zero (fl_value_or_zero (TreeNode nm v cs))))" if "set ds \<subseteq> set cs" for ds
    using that by (induction ds) (simp_all add: js_add_nonneg kids)
  then show ?case
    unfolding fl_resolved_unfold by simp
qed

lemma fl_good_build_at: "valid_tree t \<Longrightarrow> fl_good (fl_build_at d t)"
proof (induction t arbitrary: d)
  case (TreeNode nm v cs)
  have 1: "js_nonneg (fl_resolved (TreeNode nm v cs))"
    using TreeNode.prems by (rule js_nonneg_resolved)
  have 2: "fl_good c"
    if "c \<in> set (map (fl_build_at (Suc d)) (array_sort fl_by_resolved_desc cs))" for c
  proof -
    from that obtain t where "t \<in> set cs" "c = fl_build_at (Suc d) t"
      by (auto simp: set_array_sort)
    with TreeNode show ?thesis
      by simp
  qed
  show ?case
    unfolding fl_build_at_unfold using 1 2 by (simp only: fl_good.simps) blast
qed

lemma hierarchy_of_position:
  "hierarchy_of (fl_position_node dy n ax0 ay0 ax1 ay1 h) = h"
  "map hierarchy_of (fl_dice dy n k x cy0 cy1 cs) = cs"
  by (induction dy n ax0 ay0 ax1 ay1 h and dy n k x cy0 cy1 cs
      rule: fl_position_node_fl_dice.induct) (simp_all add: Let_def)

lemma hierarchy_of_fields:
  "f_data (hierarchy_of m) = fr_data (fr_rect m)" "f_value (hierarchy_of m) = fr_value (fr_rect m)"
  "f_children (hierarchy_of m) = map hierarchy_of (fr_children m)"
  by (cases m; simp)+

lemma descendants_hierarchy_of:
  "f_descendants (hierarchy_of r) = map hierarchy_of (fr_descendants r)"
proof (induction r)
  case (FRNode rc cs)
  then have "map (\<lambda>x. f_descendants (hierarchy_of x)) cs
           = map (\<lambda>x. map hierarchy_of (fr_descendants x)) cs"
    by (intro map_cong) auto
  then have "concat (map (\<lambda>x. f_descendants (hierarchy_of x)) cs)
           = concat (map (\<lambda>x. map hierarchy_of (fr_descendants x)) cs)"
    by (rule arg_cong)
  then show ?case
    by (simp add: map_concat comp_def)
qed

lemma two_pi:
  "js_mul (Fin 2) (Fin math_pi) = Fin (2 * math_pi)" "rnd (2 * math_pi) = 2 * math_pi"
proof -
  have "to_double (2 * math_pi) = Fin (2 * math_pi)"
    using to_double_dyadic [of 884279719003555 "- 47"] by (simp add: math_pi_def)
  then show "js_mul (Fin 2) (Fin math_pi) = Fin (2 * math_pi)" "rnd (2 * math_pi) = 2 * math_pi"
    by (simp_all add: to_double_stable)
qed

lemma fl_layout_position:
  "fl_layout data =
     fl_position_node (Fin (real (f_height (fl_build_at 0 data) + 1)))
       (f_height (fl_build_at 0 data) + 1) (Fin 0) (Fin 0) (Fin (2 * math_pi))
       (js_div (Fin (real (f_height (fl_build_at 0 data) + 1)))
          (Fin (real (f_height (fl_build_at 0 data) + 1))))
       (fl_build_at 0 data)"
  by (simp only: fl_layout_def fl_partition_def fl_build_hierarchy_build_at Let_def two_pi)

text \<open>
  Claim C5, amended. In double arithmetic, for a valid document whose computed angles
  are all finite: the root spans from 0 to \<open>2 * Math.PI\<close>; the layout has one node per
  document node, carrying the node's resolved weight, with one child per child of the
  document node; no node has a negative width; the children of a node are consecutive, the
  first one starting where the parent starts and each other one exactly where the one
  before ends; and a child ends at its start plus the rounded product of its weight and
  the parent's factor \<open>k\<close>, the rounded quotient of the parent's width and weight. Where
  the last child ends is not stated: it need not be where the parent ends.
\<close>

theorem partition_rounded:
  assumes "valid_tree data" and "finite_layout (fl_layout data)"
  shows "fx0 (fr_rect (fl_layout data)) = Fin 0 \<and>
         fx1 (fr_rect (fl_layout data)) = Fin (2 * math_pi) \<and>
         (\<forall>t. count_list (map (\<lambda>m. fr_data (fr_rect m)) (fr_descendants (fl_layout data))) t
             = count_list (subtrees data) t) \<and>
         (\<forall>m \<in> set (fr_descendants (fl_layout data)).
            fr_value (fr_rect m) = fl_resolved (fr_data (fr_rect m)) \<and>
            (\<forall>t. count_list (map (\<lambda>c. fr_data (fr_rect c)) (fr_children m)) t
                = count_list (kids (fr_data (fr_rect m))) t) \<and>
            js_le (fx0 (fr_rect m)) (fx1 (fr_rect m)) \<and>
            fl_chain (fx0 (fr_rect m)) (fr_children m) \<and>
            (\<forall>c \<in> set (fr_children m).
               fx1 (fr_rect c)
                 = js_add (fx0 (fr_rect c))
                     (js_mul (fr_value (fr_rect c)) (fl_dice_factor (fr_rect m)))))"
proof -
  let ?r = "fl_layout data"
  have pos: "0 \<le> 2 * math_pi"
    by (simp add: math_pi_def)
  have h: "hierarchy_of ?r = fl_build_at 0 data"
    unfolding fl_layout_position by (rule hierarchy_of_position)
  have 1: "fx0 (fr_rect ?r) = Fin 0" "fx1 (fr_rect ?r) = Fin (2 * math_pi)"
    unfolding fl_layout_position fl_position_node_rect using pos by simp_all
  have d: "map (\<lambda>m. fr_data (fr_rect m)) (fr_descendants ?r)
      = map f_data (f_descendants (fl_build_at 0 data))"
    unfolding h [symmetric] descendants_hierarchy_of by (simp add: hierarchy_of_fields comp_def)
  have 2: "count_list (map (\<lambda>m. fr_data (fr_rect m)) (fr_descendants ?r)) t
      = count_list (subtrees data) t" for t
    unfolding d by (rule fl_descendants_count)
  have ok: "\<forall>m \<in> set (fr_descendants ?r). fl_node_ok m"
    unfolding fl_layout_position
  proof (rule fl_position_ok)
    show "fl_good (fl_build_at 0 data)"
      using assms(1) by (rule fl_good_build_at)
    show "finite_layout
        (fl_position_node (Fin (real (f_height (fl_build_at 0 data) + 1)))
          (f_height (fl_build_at 0 data) + 1) (Fin 0) (Fin 0) (Fin (2 * math_pi))
          (js_div (Fin (real (f_height (fl_build_at 0 data) + 1)))
            (Fin (real (f_height (fl_build_at 0 data) + 1))))
          (fl_build_at 0 data))"
      using assms(2) unfolding fl_layout_position .
  qed (simp_all add: pos two_pi)
  have 3: "fr_value (fr_rect m) = fl_resolved (fr_data (fr_rect m)) \<and>
      (\<forall>t. count_list (map (\<lambda>c. fr_data (fr_rect c)) (fr_children m)) t
          = count_list (kids (fr_data (fr_rect m))) t)"
    if m: "m \<in> set (fr_descendants ?r)" for m
  proof -
    from m have "hierarchy_of m \<in> set (f_descendants (hierarchy_of ?r))"
      unfolding descendants_hierarchy_of by simp
    then obtain d' t' where b: "hierarchy_of m = fl_build_at d' t'"
      unfolding h using fl_build_at_descendants by blast
    have da: "fr_data (fr_rect m) = t'"
      using hierarchy_of_fields(1) [of m] by (simp add: b fl_build_at_fields)
    have va: "fr_value (fr_rect m) = fl_resolved t'"
      using hierarchy_of_fields(2) [of m] by (simp add: b fl_build_at_fields)
    have "map (\<lambda>c. fr_data (fr_rect c)) (fr_children m)
        = map f_data (f_children (hierarchy_of m))"
      by (simp add: hierarchy_of_fields comp_def)
    then have "count_list (map (\<lambda>c. fr_data (fr_rect c)) (fr_children m)) t
        = count_list (kids t') t" for t
      unfolding b by (simp only: fl_children_count)
    with da va show ?thesis
      by simp
  qed
  show ?thesis
    using 1 2 3 ok unfolding fl_node_ok_def by blast
qed

lemma fl_layout_over_doc:
  "fl_layout over_doc =
     FRNode \<lparr> fr_data = over_doc, fr_depth = 0, fr_height = 1, fr_value = Fin 11,
               fx0 = Fin 0, fx1 = Fin (884279719003555 / 140737488355328),
               fy0 = Fin 0, fy1 = Fin 1 \<rparr>
       [FRNode \<lparr> fr_data = TreeNode ''A'' (Some 5) [], fr_depth = 1, fr_height = 0,
                  fr_value = Fin 5, fx0 = Fin 0,
                  fx1 = Fin (1607781307279191 / 562949953421312),
                  fy0 = Fin 1, fy1 = Fin 2 \<rparr> [],
        FRNode \<lparr> fr_data = TreeNode ''B'' (Some 4) [], fr_depth = 1, fr_height = 0,
                  fr_value = Fin 4, fx0 = Fin (1607781307279191 / 562949953421312),
                  fx1 = Fin (180875397068909 / 35184372088832),
                  fy0 = Fin 1, fy1 = Fin 2 \<rparr> [],
        FRNode \<lparr> fr_data = TreeNode ''C'' (Some 2) [], fr_depth = 1, fr_height = 0,
                  fr_value = Fin 2, fx0 = Fin (180875397068909 / 35184372088832),
                  fx1 = Fin (7074237752028441 / 1125899906842624),
                  fy0 = Fin 1, fy1 = Fin 2 \<rparr> []]"
  by (simp add: fl_layout_position fl_build_at_unfold fl_resolved_unfold over_doc_def
      fl_value_or_zero_def array_sort_def fl_by_resolved_desc_def js_sub_def math_pi_def
      Let_def to_double_over)

text \<open>
  Claim C5, as stated, fails in double arithmetic. In the layout of \<open>over_doc\<close>, a valid
  document of total weight 11, the root ends at \<open>2 * Math.PI\<close>, which is
  \<open>7074237752028440 / 2 ^ 50\<close>, and its last child C ends at
  \<open>7074237752028441 / 2 ^ 50\<close>, one unit in the last place further: the span of C is
  not inside the span of the root, and the spans of the children do not add up to it.
\<close>

theorem partition_counterexample:
  "valid_tree over_doc \<and> fl_resolved over_doc = Fin 11 \<and>
   fx1 (fr_rect (fl_layout over_doc)) = Fin (7074237752028440 / 2 ^ 50) \<and>
   map (\<lambda>c. fx1 (fr_rect c)) (fr_children (fl_layout over_doc))
     = [Fin (1607781307279191 / 2 ^ 49), Fin (5788012706205088 / 2 ^ 50),
        Fin (7074237752028441 / 2 ^ 50)] \<and>
   js_lt (fx1 (fr_rect (fl_layout over_doc)))
     (fx1 (fr_rect (last (fr_children (fl_layout over_doc)))))"
proof -
  have "valid_tree over_doc"
    by (simp add: over_doc_def)
  moreover have "fl_resolved over_doc = Fin 11"
    by (simp add: over_doc_def fl_resolved_unfold fl_value_or_zero_def)
  ultimately show ?thesis
    by (simp add: fl_layout_over_doc)
qed

theorem partition_rounded_witness:
  "valid_tree over_doc \<and> finite_layout (fl_layout over_doc) \<and>
   fl_layout over_doc \<in> set (fr_descendants (fl_layout over_doc)) \<and>
   fr_value (fr_rect (fl_layout over_doc)) = fl_resolved over_doc \<and>
   fl_chain (Fin 0) (fr_children (fl_layout over_doc)) \<and>
   fl_dice_factor (fr_rect (fl_layout over_doc)) = Fin (5144900183293411 / 2 ^ 53) \<and>
   last (fr_children (fl_layout over_doc)) \<in> set (fr_children (fl_layout over_doc)) \<and>
   fx1 (fr_rect (last (fr_children (fl_layout over_doc))))
     = js_add (Fin (5788012706205088 / 2 ^ 50)) (js_mul (Fin 2) (Fin (5144900183293411 / 2 ^ 53)))"
proof -
  let ?r = "fl_layout over_doc"
  have v: "valid_tree over_doc"
    by (simp add: over_doc_def)
  have f: "finite_layout ?r"
    by (simp add: fl_layout_over_doc finite_layout_def)
  have m: "?r \<in> set (fr_descendants ?r)"
    by (rule fr_descendants_self)
  have l: "last (fr_children ?r) \<in> set (fr_children ?r)"
    by (simp add: fl_layout_over_doc)
  have k: "fl_dice_factor (fr_rect ?r) = Fin (5144900183293411 / 2 ^ 53)"
    by (simp add: fl_layout_over_doc fl_dice_factor_def js_sub_def to_double_over)
  have e: "fr_data (fr_rect ?r) = over_doc" "fx0 (fr_rect ?r) = Fin 0"
    "fx0 (fr_rect (last (fr_children ?r))) = Fin (5788012706205088 / 2 ^ 50)"
    "fr_value (fr_rect (last (fr_children ?r))) = Fin 2"
    by (simp_all add: fl_layout_over_doc)
  note T = partition_rounded [OF v f]
  from T m have 1: "fr_value (fr_rect ?r) = fl_resolved (fr_data (fr_rect ?r))"
    by blast
  from T m have 2: "fl_chain (fx0 (fr_rect ?r)) (fr_children ?r)"
    by blast
  from T m l have 3: "fx1 (fr_rect (last (fr_children ?r)))
      = js_add (fx0 (fr_rect (last (fr_children ?r))))
          (js_mul (fr_value (fr_rect (last (fr_children ?r)))) (fl_dice_factor (fr_rect ?r)))"
    by blast
  from 1 have c1: "fr_value (fr_rect ?r) = fl_resolved over_doc"
    by (simp only: e)
  from 2 have c2: "fl_chain (Fin 0) (fr_children ?r)"
    by (simp only: e)
  from 3 have c3: "fx1 (fr_rect (last (fr_children ?r)))
      = js_add (Fin (5788012706205088 / 2 ^ 50)) (js_mul (Fin 2) (Fin (5144900183293411 / 2 ^ 53)))"
    by (simp only: e k)
  from v f m c1 c2 k l c3 show ?thesis
    by blast
qed

end
